theory Spec2Isabelle
  imports Main "HOL-Library.AList"
begin

section \<open>The web crawler of \<^verbatim>\<open>main.py\<close>\<close>

text \<open>
  The class \<^verbatim>\<open>WebCrawler\<close> keeps a visited set and a content index, crawls a site
  depth first from a seed URL and answers keyword queries over the index. The
  collaborators it calls (\<^verbatim>\<open>requests.get\<close>, \<^verbatim>\<open>BeautifulSoup\<close>, \<^verbatim>\<open>urljoin\<close>) are library
  code; they are parameters of the model.
\<close>

subsection \<open>Python strings\<close>

text \<open>\<^verbatim>\<open>s.startswith(p)\<close>, compared character by character.\<close>

fun startswith :: "string \<Rightarrow> string \<Rightarrow> bool" where
  "startswith s [] = True"
| "startswith [] (p # ps) = False"
| "startswith (c # cs) (p # ps) = (c = p \<and> startswith cs ps)"

text \<open>\<^verbatim>\<open>sub in s\<close>: \<^verbatim>\<open>sub\<close> occurs at some position of \<^verbatim>\<open>s\<close>.\<close>

fun str_in :: "string \<Rightarrow> string \<Rightarrow> bool" where
  "str_in sub [] = (sub = [])"
| "str_in sub (c # cs) = (startswith (c # cs) sub \<or> str_in sub cs)"

subsection \<open>State and collaborators\<close>

text \<open>
  An exception is either a \<^verbatim>\<open>requests.exceptions.RequestException\<close> (the first
  \<^verbatim>\<open>except\<close> clause of \<^verbatim>\<open>crawl\<close>) or any other \<^verbatim>\<open>Exception\<close> (the second).
\<close>

datatype exn = RequestException | OtherException

text \<open>How a block of statements ends: it runs to its end, or it raises.\<close>

datatype completion = Normal | Raise exn

text \<open>
  The two fields of \<^verbatim>\<open>WebCrawler\<close>, and the trace of the calls of \<^verbatim>\<open>requests.get\<close>
  made so far (the effect of the crawler on the outside, oldest first). The index is a
  Python dict: an association list in insertion order, written with
  \<^const>\<open>AList.update\<close>, which replaces the value of a key already there and appends
  a new key at the end.
\<close>

record crawler =
  index :: "(string \<times> string) list"
  visited :: "string set"
  gets :: "string list"

text \<open>\<^verbatim>\<open>WebCrawler()\<close>\<close>

definition init :: crawler where
  "init = \<lparr>index = [], visited = {}, gets = []\<rparr>"

text \<open>
  The collaborators. \<^verbatim>\<open>http_get url\<close> is \<^verbatim>\<open>requests.get(url)\<close> followed by
  \<^verbatim>\<open>raise_for_status()\<close>: the response text, or the exception raised.
  \<^verbatim>\<open>parse_html body\<close> is \<^verbatim>\<open>BeautifulSoup(body, 'html.parser')\<close>: the result of
  \<^verbatim>\<open>get_text()\<close> and, for every \<^verbatim>\<open>a\<close> tag in document order, the value of
  \<^verbatim>\<open>link.get('href')\<close> (\<^const>\<open>None\<close> when the tag has no such attribute), or the
  exception raised. \<^verbatim>\<open>urljoin base href\<close> is \<^verbatim>\<open>urllib.parse.urljoin\<close>, which raises
  \<^verbatim>\<open>ValueError\<close> on some malformed references (\<^verbatim>\<open>//[\<close> for one).
\<close>

record env =
  http_get :: "string \<Rightarrow> exn + string"
  parse_html :: "string \<Rightarrow> exn + string \<times> string option list"
  urljoin :: "string \<Rightarrow> string \<Rightarrow> exn + string"

text \<open>
  Lines 23 to 25 and the call of \<^verbatim>\<open>get_text\<close>: the text and the links of the page at
  \<^verbatim>\<open>url\<close>, or the first exception raised on the way.
\<close>

definition fetch_page :: "env \<Rightarrow> string \<Rightarrow> exn + string \<times> string option list" where
  "fetch_page e url = (case http_get e url of Inl x \<Rightarrow> Inl x | Inr body \<Rightarrow> parse_html e body)"

subsection \<open>\<^verbatim>\<open>WebCrawler.crawl\<close>\<close>

text \<open>\<^verbatim>\<open>base_url or url\<close>: \<^verbatim>\<open>None\<close> and the empty string are both false.\<close>

definition base_or :: "string option \<Rightarrow> string \<Rightarrow> string" where
  "base_or base_url url =
     (case base_url of None \<Rightarrow> url | Some b \<Rightarrow> if b = [] then url else b)"

text \<open>
  Lines 15 to 20: the membership test and the insertion. The result says whether the
  URL was newly marked.
\<close>

definition try_mark :: "string \<Rightarrow> crawler \<Rightarrow> bool \<times> crawler" where
  "try_mark url s =
     (if url \<in> visited s then (False, s)
      else (True, s\<lparr>visited := insert url (visited s)\<rparr>))"

text \<open>
  The two \<^verbatim>\<open>except\<close> clauses of lines 38 to 41: each logs the error, and the function
  continues after the \<^verbatim>\<open>try\<close> statement.
\<close>

fun handlers :: "completion \<Rightarrow> completion" where
  "handlers Normal = Normal"
| "handlers (Raise RequestException) = Normal"
| "handlers (Raise OtherException) = Normal"

text \<open>
  \<^verbatim>\<open>crawl\<close> calls itself once per link, to a depth the site decides, so the model
  takes fuel: the number of nested calls of \<^verbatim>\<open>crawl\<close> allowed. \<^const>\<open>None\<close> says
  that the fuel ran out; it is not an exception and no handler sees it.
  \<^verbatim>\<open>for_links\<close> is the loop of lines 29 to 37 over the remaining \<^verbatim>\<open>a\<close> tags.
\<close>

fun crawl :: "env \<Rightarrow> nat \<Rightarrow> string \<Rightarrow> string option \<Rightarrow> crawler \<Rightarrow> (completion \<times> crawler) option"
  and for_links :: "env \<Rightarrow> nat \<Rightarrow> string \<Rightarrow> string option \<Rightarrow> string option list \<Rightarrow> crawler
                      \<Rightarrow> (completion \<times> crawler) option" where
  "crawl e 0 url base_url s = None"
| "crawl e (Suc n) url base_url s =
     (case try_mark url s of
        (False, s0) \<Rightarrow> Some (Normal, s0)
      | (True, s1) \<Rightarrow>
          (let s2 = s1\<lparr>gets := gets s1 @ [url]\<rparr> in
           case fetch_page e url of
             Inl x \<Rightarrow> Some (handlers (Raise x), s2)
           | Inr (text, links) \<Rightarrow>
               (let s3 = s2\<lparr>index := AList.update url text (index s2)\<rparr> in
                case for_links e n url base_url links s3 of
                  None \<Rightarrow> None
                | Some (c, s') \<Rightarrow> Some (handlers c, s'))))"
| "for_links e n url base_url [] s = Some (Normal, s)"
| "for_links e n url base_url (link # links) s =
     (case link of
        None \<Rightarrow> for_links e n url base_url links s
      | Some href \<Rightarrow>
          if href = [] then for_links e n url base_url links s
          else
            (case urljoin e (base_or base_url url) href of
               Inl x \<Rightarrow> Some (Raise x, s)
             | Inr href' \<Rightarrow>
                 if startswith href' (base_or base_url url) then
                   (case crawl e n href' (Some (base_or base_url url)) s of
                      None \<Rightarrow> None
                    | Some (Normal, s') \<Rightarrow> for_links e n url base_url links s'
                    | Some (Raise x, s') \<Rightarrow> Some (Raise x, s'))
                 else for_links e n url base_url links s))"

subsection \<open>\<^verbatim>\<open>WebCrawler.search\<close>\<close>

text \<open>
  \<^verbatim>\<open>str.lower\<close> is a builtin of the Python runtime, with the case mapping of all of
  Unicode; like the collaborators of \<^verbatim>\<open>crawl\<close> it is a parameter of the model, \<^verbatim>\<open>lower\<close>.
  \<^verbatim>\<open>search_loop\<close> is the loop of lines 45 to 47 over the remaining items, with
  \<^verbatim>\<open>results\<close> so far.
\<close>

fun search_loop :: "(string \<Rightarrow> string) \<Rightarrow> string \<Rightarrow> (string \<times> string) list \<Rightarrow> string list
                      \<Rightarrow> string list" where
  "search_loop lower keyword [] results = results"
| "search_loop lower keyword ((url, text) # items) results =
     search_loop lower keyword items
       (if str_in (lower keyword) (lower text) then results @ [url] else results)"

definition search :: "(string \<Rightarrow> string) \<Rightarrow> crawler \<Rightarrow> string \<Rightarrow> string list" where
  "search lower s keyword = search_loop lower keyword (index s) []"

subsection \<open>Notions used in the statements\<close>

text \<open>The fetch of a URL and the extraction of its text and links both succeed.\<close>

definition fetched_ok :: "env \<Rightarrow> string \<Rightarrow> bool" where
  "fetched_ok e u = (\<exists>t l. fetch_page e u = Inr (t, l))"

text \<open>
  The URLs on which the loop of lines 29 to 37 calls \<^verbatim>\<open>crawl\<close>, in order, for a page with
  these links and scope prefix \<^verbatim>\<open>base\<close>: the references that are present, not empty and
  resolve to a URL that starts with \<^verbatim>\<open>base\<close>, up to the first reference on which
  \<^verbatim>\<open>urljoin\<close> raises (the exception leaves the loop).
\<close>

fun targets :: "env \<Rightarrow> string \<Rightarrow> string option list \<Rightarrow> string list" where
  "targets e base [] = []"
| "targets e base (None # links) = targets e base links"
| "targets e base (Some href # links) =
     (if href = [] then targets e base links
      else (case urljoin e base href of
              Inl x \<Rightarrow> []
            | Inr href' \<Rightarrow>
                if startswith href' base then href' # targets e base links
                else targets e base links))"

text \<open>The pairs of a successfully fetched page and a URL the loop over its links crawls.\<close>

definition follows :: "env \<Rightarrow> string \<Rightarrow> (string \<times> string) set" where
  "follows e base =
     {(u, v). \<exists>text links. fetch_page e u = Inr (text, links) \<and> v \<in> set (targets e base links)}"

text \<open>
  The pairs of a successfully fetched page and a URL that one of its links resolves to
  and that is in scope, wherever the link stands on the page.
\<close>

definition links_to :: "env \<Rightarrow> string \<Rightarrow> (string \<times> string) set" where
  "links_to e base =
     {(u, v). \<exists>text links href. fetch_page e u = Inr (text, links) \<and> Some href \<in> set links \<and>
        href \<noteq> [] \<and> urljoin e base href = Inr v \<and> startswith v base}"

text \<open>Every URL that has an entry in the index is in the visited set.\<close>

definition index_visited :: "crawler \<Rightarrow> bool" where
  "index_visited s = (fst ` set (index s) \<subseteq> visited s)"

text \<open>
  The states the crawler passes through while \<^const>\<open>crawl\<close> runs, one after each
  assignment, in order; with too little fuel, those up to the point where it ran out.
\<close>

fun crawl_states :: "env \<Rightarrow> nat \<Rightarrow> string \<Rightarrow> string option \<Rightarrow> crawler \<Rightarrow> crawler list"
  and for_links_states :: "env \<Rightarrow> nat \<Rightarrow> string \<Rightarrow> string option \<Rightarrow> string option list \<Rightarrow> crawler
                      \<Rightarrow> crawler list" where
  "crawl_states e 0 url base_url s = []"
| "crawl_states e (Suc n) url base_url s =
     (case try_mark url s of
        (False, s0) \<Rightarrow> []
      | (True, s1) \<Rightarrow>
          (let s2 = s1\<lparr>gets := gets s1 @ [url]\<rparr> in
           s1 # s2 #
           (case fetch_page e url of
              Inl x \<Rightarrow> []
            | Inr (text, links) \<Rightarrow>
                (let s3 = s2\<lparr>index := AList.update url text (index s2)\<rparr> in
                 s3 # for_links_states e n url base_url links s3))))"
| "for_links_states e n url base_url [] s = []"
| "for_links_states e n url base_url (link # links) s =
     (case link of
        None \<Rightarrow> for_links_states e n url base_url links s
      | Some href \<Rightarrow>
          if href = [] then for_links_states e n url base_url links s
          else
            (case urljoin e (base_or base_url url) href of
               Inl x \<Rightarrow> []
             | Inr href' \<Rightarrow>
                 if startswith href' (base_or base_url url) then
                   crawl_states e n href' (Some (base_or base_url url)) s @
                   (case crawl e n href' (Some (base_or base_url url)) s of
                      None \<Rightarrow> []
                    | Some (Normal, s') \<Rightarrow> for_links_states e n url base_url links s'
                    | Some (Raise x, s') \<Rightarrow> [])
                 else for_links_states e n url base_url links s))"

subsection \<open>Example sites\<close>

text \<open>
  The values of \<^verbatim>\<open>urllib.parse.urljoin\<close> on the references of the examples below, for a
  base \<^verbatim>\<open>https://example.com\<close>: \<^verbatim>\<open>//[\<close> raises \<^verbatim>\<open>ValueError\<close> (invalid IPv6 URL), a
  fragment is appended to the base, a path replaces the path of the base, and any
  other reference used here is an absolute URL and is returned.
\<close>

definition urljoin_example :: "string \<Rightarrow> string \<Rightarrow> exn + string" where
  "urljoin_example base href =
     (if href = ''//['' then Inl OtherException
      else if startswith href ''#'' then Inr (base @ href)
      else if startswith href ''/'' then Inr (''https://example.com'' @ href)
      else Inr href)"

text \<open>
  A site given by its pages (URL, text, links): the body of a page is named by its URL,
  a URL that is not listed answers with an error status.
\<close>

definition site :: "(string \<times> string \<times> string option list) list \<Rightarrow> env" where
  "site pages =
     \<lparr>http_get = (\<lambda>url. case map_of pages url of None \<Rightarrow> Inl RequestException | Some p \<Rightarrow> Inr url),
      parse_html = (\<lambda>body. case map_of pages body of None \<Rightarrow> Inl OtherException | Some p \<Rightarrow> Inr p),
      urljoin = urljoin_example\<rparr>"

text \<open>The chain A, B, C: A links to B, B links to C, C has no links.\<close>

definition chain_pages :: "(string \<times> string \<times> string option list) list" where
  "chain_pages =
     [(''https://example.com'', ''page A'', [Some ''/b'']),
      (''https://example.com/b'', ''page B'', [Some ''/c'']),
      (''https://example.com/c'', ''page C'', [])]"

text \<open>A seed page with an internal link, an external link and a link with a fragment.\<close>

definition scenario_pages :: "(string \<times> string \<times> string option list) list" where
  "scenario_pages =
     [(''https://example.com'', ''home'',
         [Some ''/about'', Some ''https://external.com'', Some ''/about#frag'']),
      (''https://example.com/about'', ''about'', []),
      (''https://example.com/about#frag'', ''about'', []),
      (''https://external.com'', ''elsewhere'', [])]"

text \<open>
  The mock of \<^verbatim>\<open>test_crawl_success\<close>: every URL answers with the same page, whose four
  anchors are \<^verbatim>\<open>/about\<close>, \<^verbatim>\<open>https://www.external.com\<close>, \<^verbatim>\<open>/contact\<close> and \<^verbatim>\<open>#section\<close>
  (the text is shortened).
\<close>

definition sample_site :: env where
  "sample_site =
     \<lparr>http_get = (\<lambda>url. Inr ''sample_html''),
      parse_html = (\<lambda>body. Inr (''Welcome! About Us External Link Contact Section Link'',
         [Some ''/about'', Some ''https://www.external.com'', Some ''/contact'', Some ''#section''])),
      urljoin = urljoin_example\<rparr>"

text \<open>A seed page whose first reference makes \<^verbatim>\<open>urljoin\<close> raise.\<close>

definition broken_pages :: "(string \<times> string \<times> string option list) list" where
  "broken_pages =
     [(''https://example.com'', ''home'', [Some ''//['', Some ''/about'']),
      (''https://example.com/about'', ''about'', [])]"

text \<open>A seed page that links to a host whose name extends the seed.\<close>

definition evil_pages :: "(string \<times> string \<times> string option list) list" where
  "evil_pages =
     [(''https://example.com'', ''home'', [Some ''https://example.com.evil.com'']),
      (''https://example.com.evil.com'', ''evil'', [])]"

text \<open>A seed page with a dead link, an anchor without \<^verbatim>\<open>href\<close> and an empty \<^verbatim>\<open>href\<close>.\<close>

definition dead_link_pages :: "(string \<times> string \<times> string option list) list" where
  "dead_link_pages =
     [(''https://example.com'', ''home'', [Some ''/gone'', None, Some '''', Some ''/about'']),
      (''https://example.com/about'', ''about'', [])]"

text \<open>
  The values of \<^verbatim>\<open>str.lower\<close> on strings of ASCII characters, the only ones the
  examples below use: the letters A to Z move to a to z, every other ASCII character
  stays.
\<close>

definition lower_example_char :: "char \<Rightarrow> char" where
  "lower_example_char c =
     (let n = (of_char c :: nat) in if 65 \<le> n \<and> n \<le> 90 then char_of (n + 32) else c)"

definition lower_example :: "string \<Rightarrow> string" where
  "lower_example s = map lower_example_char s"

text \<open>The index of \<^verbatim>\<open>test_search_case_insensitive\<close>.\<close>

definition test_index :: "(string \<times> string) list" where
  "test_index =
     [(''page1'', ''This has the KEYWORD''),
      (''page2'', ''This has the keyword''),
      (''page3'', ''No match here'')]"

text \<open>A seed page whose fragment link stands behind a reference that makes \<^verbatim>\<open>urljoin\<close> raise.\<close>

definition broken_fragment_pages :: "(string \<times> string \<times> string option list) list" where
  "broken_fragment_pages =
     [(''https://example.com'', ''home'', [Some ''//['', Some ''#section''])]"

section \<open>Properties\<close>

subsection \<open>Strings\<close>

lemma startswith_iff: "startswith s p \<longleftrightarrow> (\<exists>t. s = p @ t)"
  by (induction s p rule: startswith.induct) auto

lemma str_in_iff: "str_in sub s \<longleftrightarrow> (\<exists>ps ss. s = ps @ sub @ ss)"
proof (induction s)
  case Nil
  then show ?case by simp
next
  case (Cons c cs)
  show ?case
  proof
    assume "str_in sub (c # cs)"
    then consider "startswith (c # cs) sub" | "str_in sub cs" by auto
    then show "\<exists>ps ss. c # cs = ps @ sub @ ss"
    proof cases
      case 1
      then obtain t where "c # cs = sub @ t" by (auto simp: startswith_iff)
      then have "c # cs = [] @ sub @ t" by simp
      then show ?thesis by blast
    next
      case 2
      then obtain ps ss where "cs = ps @ sub @ ss" using Cons.IH by auto
      then have "c # cs = (c # ps) @ sub @ ss" by simp
      then show ?thesis by blast
    qed
  next
    assume "\<exists>ps ss. c # cs = ps @ sub @ ss"
    then obtain ps ss where eq: "c # cs = ps @ sub @ ss" by blast
    show "str_in sub (c # cs)"
    proof (cases ps)
      case Nil
      with eq have "startswith (c # cs) sub" by (auto simp: startswith_iff)
      then show ?thesis by simp
    next
      case (Cons a ps')
      with eq have "cs = ps' @ sub @ ss" by simp
      then have "str_in sub cs" using Cons.IH by blast
      then show ?thesis by simp
    qed
  qed
qed

subsection \<open>Search\<close>

lemma search_loop_eq:
  "search_loop lower keyword items results =
     results @ map fst (filter (\<lambda>(url, text). str_in (lower keyword) (lower text)) items)"
  by (induction lower keyword items results rule: search_loop.induct) auto

lemma search_eq:
  "search lower s keyword =
     map fst (filter (\<lambda>(url, text). \<exists>ps ss. lower text = ps @ lower keyword @ ss) (index s))"
  by (simp add: search_def search_loop_eq str_in_iff)

lemma search_empty_keyword:
  assumes "lower [] = []"
  shows "search lower s [] = map fst (index s)"
proof -
  have "\<exists>ps ss. t = ps @ ss" for t :: string by (rule exI[of _ "[]"]) simp
  then show ?thesis by (simp add: search_eq assms case_prod_unfold)
qed

lemma search_case_example:
  "search lower_example (init\<lparr>index := [(''u'', ''KEYWORD here'')]\<rparr>) ''keyword'' = [''u'']"
  by code_simp

lemma search_test_example:
  "search lower_example (init\<lparr>index := test_index\<rparr>) ''keyword'' = [''page1'', ''page2'']"
  by code_simp

lemma search_no_match_example:
  "search lower_example (init\<lparr>index := test_index\<rparr>) ''keywords'' = []"
  by code_simp

lemma search_order_example:
  "search lower_example (init\<lparr>index := test_index\<rparr>) ''HAS'' = [''page1'', ''page2'']
   \<and> search lower_example (init\<lparr>index := rev test_index\<rparr>) ''HAS'' = [''page2'', ''page1'']"
  by code_simp

lemma lower_example_Nil: "lower_example [] = []"
  by (simp add: lower_example_def)

text \<open>
  C5: whatever \<^verbatim>\<open>str.lower\<close> computes, \<^verbatim>\<open>search(keyword)\<close> returns, in the order of the
  index, exactly the URLs whose lowercased text has the lowercased keyword as a
  substring. The empty keyword, whose lowercase is the empty string, returns every
  indexed URL, and a search over an empty index returns the empty list. On the ASCII
  examples: \<^verbatim>\<open>KEYWORD here\<close> is found under \<^verbatim>\<open>keyword\<close>; in the index of
  \<^verbatim>\<open>test_search_case_insensitive\<close> the keyword \<^verbatim>\<open>keyword\<close> finds \<^verbatim>\<open>page1\<close> and \<^verbatim>\<open>page2\<close>
  and not \<^verbatim>\<open>page3\<close>, \<^verbatim>\<open>keywords\<close> finds nothing, and the results come in the order of
  the index.
\<close>

theorem search_substring_in_order:
  "search lower s keyword =
     map fst (filter (\<lambda>(url, text). \<exists>ps ss. lower text = ps @ lower keyword @ ss) (index s))
   \<and> (lower [] = [] \<longrightarrow> search lower s [] = map fst (index s))
   \<and> search lower (s\<lparr>index := []\<rparr>) keyword = []
   \<and> search lower_example (init\<lparr>index := [(''u'', ''KEYWORD here'')]\<rparr>) ''keyword'' = [''u'']
   \<and> search lower_example (init\<lparr>index := test_index\<rparr>) ''keyword'' = [''page1'', ''page2'']
   \<and> search lower_example (init\<lparr>index := test_index\<rparr>) ''keywords'' = []
   \<and> search lower_example (init\<lparr>index := test_index\<rparr>) ''HAS'' = [''page1'', ''page2'']
   \<and> search lower_example (init\<lparr>index := rev test_index\<rparr>) ''HAS'' = [''page2'', ''page1'']"
proof -
  have "search lower (s\<lparr>index := []\<rparr>) keyword = []" by (simp add: search_def)
  then show ?thesis
    using search_eq[of lower s keyword] search_empty_keyword[of lower s] search_case_example
      search_test_example search_no_match_example search_order_example
    by blast
qed

theorem search_substring_in_order_witness:
  "lower_example [] = []
   \<and> search lower_example (init\<lparr>index := test_index\<rparr>) [] = [''page1'', ''page2'', ''page3'']"
proof -
  note t = search_substring_in_order[where lower = lower_example
      and s = "init\<lparr>index := test_index\<rparr>", THEN conjunct2, THEN conjunct1, rule_format,
      OF lower_example_Nil]
  from t lower_example_Nil show ?thesis by (simp add: test_index_def)
qed

subsection \<open>A proof rule for \<^const>\<open>crawl\<close>\<close>

lemma handlers_Normal: "handlers c = Normal"
  by (cases c rule: handlers.cases) simp_all

lemma crawl_Normal: "crawl e n url b s = Some (c, s') \<Longrightarrow> c = Normal"
  by (cases n)
     (auto simp: try_mark_def handlers_Normal Let_def split: if_splits sum.splits option.splits prod.splits)

lemma crawl_for_links_aux:
  assumes skip: "\<And>url b s. url \<in> visited s \<Longrightarrow> P url b s s"
    and fail: "\<And>url b s x. url \<notin> visited s \<Longrightarrow> fetch_page e url = Inl x \<Longrightarrow>
          P url b s (s\<lparr>visited := insert url (visited s), gets := gets s @ [url]\<rparr>)"
    and page: "\<And>url b s text links c s'. url \<notin> visited s \<Longrightarrow>
          fetch_page e url = Inr (text, links) \<Longrightarrow>
          Q url b links (s\<lparr>visited := insert url (visited s), gets := gets s @ [url],
                           index := AList.update url text (index s)\<rparr>) c s' \<Longrightarrow>
          P url b s s'"
    and nil: "\<And>url b s. Q url b [] s Normal s"
    and no_href: "\<And>url b links s c s'. Q url b links s c s' \<Longrightarrow> Q url b (None # links) s c s'"
    and empty_href: "\<And>url b links s c s'. Q url b links s c s' \<Longrightarrow> Q url b (Some [] # links) s c s'"
    and raises: "\<And>url b h links s x. h \<noteq> [] \<Longrightarrow> urljoin e (base_or b url) h = Inl x \<Longrightarrow>
          Q url b (Some h # links) s (Raise x) s"
    and external: "\<And>url b h r links s c s'. h \<noteq> [] \<Longrightarrow> urljoin e (base_or b url) h = Inr r \<Longrightarrow>
          \<not> startswith r (base_or b url) \<Longrightarrow> Q url b links s c s' \<Longrightarrow>
          Q url b (Some h # links) s c s'"
    and internal: "\<And>url b h r links s s1 c s'. h \<noteq> [] \<Longrightarrow>
          urljoin e (base_or b url) h = Inr r \<Longrightarrow> startswith r (base_or b url) \<Longrightarrow>
          P r (Some (base_or b url)) s s1 \<Longrightarrow> Q url b links s1 c s' \<Longrightarrow>
          Q url b (Some h # links) s c s'"
  shows "crawl ee n url b s = Some (c, s') \<Longrightarrow> ee = e \<Longrightarrow> P url b s s'"
    and "for_links ee n url b links s = Some (c, s') \<Longrightarrow> ee = e \<Longrightarrow> Q url b links s c s'"
proof (induction ee n url b s and ee n url b links s arbitrary: c s' and c s'
       rule: crawl_for_links.induct)
  case (1 ee url base_url s)
  then show ?case by simp
next
  case (2 ee n url base_url s)
  note [simp] = \<open>ee = e\<close>
  show ?case
  proof (cases "url \<in> visited s")
    case True
    with "2.prems" show ?thesis by (simp add: try_mark_def skip)
  next
    case False
    show ?thesis
    proof (cases "fetch_page e url")
      case (Inl x)
      with False "2.prems" show ?thesis by (auto simp: try_mark_def fail)
    next
      case (Inr p)
      obtain t links where p: "p = (t, links)" by (cases p)
      let ?s3 = "s\<lparr>visited := insert url (visited s), gets := gets s @ [url],
                    index := AList.update url t (index s)\<rparr>"
      from False Inr p "2.prems" obtain c0 where
        run: "for_links e n url base_url links ?s3 = Some (c0, s')"
        by (auto simp: try_mark_def split: option.splits)
      have "Q url base_url links ?s3 c0 s'"
        using "2.IH"[of True "s\<lparr>visited := insert url (visited s)\<rparr>"
            "s\<lparr>visited := insert url (visited s), gets := gets s @ [url]\<rparr>" "(t, links)" t links ?s3 c0 s']
          False Inr p run by (simp add: try_mark_def)
      with False Inr p show ?thesis by (auto intro: page)
    qed
  qed
next
  case (3 ee n url base_url s)
  then show ?case by (simp add: nil)
next
  case (4 ee n url base_url link links s)
  note [simp] = \<open>ee = e\<close>
  show ?case
  proof (cases link)
    case None
    with 4 show ?thesis by (simp add: no_href)
  next
    case (Some h)
    show ?thesis
    proof (cases "h = []")
      case True
      with Some 4 show ?thesis by (simp add: empty_href)
    next
      case False
      show ?thesis
      proof (cases "urljoin e (base_or base_url url) h")
        case (Inl x)
        with Some False "4.prems" show ?thesis by (auto simp: raises)
      next
        case (Inr r)
        show ?thesis
        proof (cases "startswith r (base_or base_url url)")
          case out: False
          with Some False Inr "4.prems" "4.IH"(5) show ?thesis by (auto intro: external)
        next
          case True
          with Some False Inr "4.prems" obtain s1 where
            c1: "crawl e n r (Some (base_or base_url url)) s = Some (Normal, s1)" and
            r2: "for_links e n url base_url links s1 = Some (c, s')"
            by (auto split: option.splits completion.splits dest: crawl_Normal)
          have "P r (Some (base_or base_url url)) s s1"
            using "4.IH"(3)[OF Some False, of r Normal s1] Inr True c1 by simp
          moreover have "Q url base_url links s1 c s'"
            using "4.IH"(4)[OF Some False, of r "(Normal, s1)" Normal s1 c s'] Inr True c1 r2 by simp
          ultimately show ?thesis using Some False Inr True by (auto intro: internal)
        qed
      qed
    qed
  qed
qed

lemma crawl_for_links_rule:
  assumes "\<And>url b s. url \<in> visited s \<Longrightarrow> P url b s s"
    and "\<And>url b s x. url \<notin> visited s \<Longrightarrow> fetch_page e url = Inl x \<Longrightarrow>
          P url b s (s\<lparr>visited := insert url (visited s), gets := gets s @ [url]\<rparr>)"
    and "\<And>url b s text links c s'. url \<notin> visited s \<Longrightarrow>
          fetch_page e url = Inr (text, links) \<Longrightarrow>
          Q url b links (s\<lparr>visited := insert url (visited s), gets := gets s @ [url],
                           index := AList.update url text (index s)\<rparr>) c s' \<Longrightarrow>
          P url b s s'"
    and "\<And>url b s. Q url b [] s Normal s"
    and "\<And>url b links s c s'. Q url b links s c s' \<Longrightarrow> Q url b (None # links) s c s'"
    and "\<And>url b links s c s'. Q url b links s c s' \<Longrightarrow> Q url b (Some [] # links) s c s'"
    and "\<And>url b h links s x. h \<noteq> [] \<Longrightarrow> urljoin e (base_or b url) h = Inl x \<Longrightarrow>
          Q url b (Some h # links) s (Raise x) s"
    and "\<And>url b h r links s c s'. h \<noteq> [] \<Longrightarrow> urljoin e (base_or b url) h = Inr r \<Longrightarrow>
          \<not> startswith r (base_or b url) \<Longrightarrow> Q url b links s c s' \<Longrightarrow>
          Q url b (Some h # links) s c s'"
    and "\<And>url b h r links s s1 c s'. h \<noteq> [] \<Longrightarrow>
          urljoin e (base_or b url) h = Inr r \<Longrightarrow> startswith r (base_or b url) \<Longrightarrow>
          P r (Some (base_or b url)) s s1 \<Longrightarrow> Q url b links s1 c s' \<Longrightarrow>
          Q url b (Some h # links) s c s'"
  shows "crawl e n url b s = Some (c, s') \<Longrightarrow> P url b s s'"
    and "for_links e n url b links s = Some (c, s') \<Longrightarrow> Q url b links s c s'"
proof -
  show "crawl e n url b s = Some (c, s') \<Longrightarrow> P url b s s'"
    by (rule crawl_for_links_aux(1)[where ee = e and e = e and P = P and Q = Q])
       ((rule assms; assumption) | assumption | rule refl)+
  show "for_links e n url b links s = Some (c, s') \<Longrightarrow> Q url b links s c s'"
    by (rule crawl_for_links_aux(2)[where ee = e and e = e and P = P and Q = Q])
       ((rule assms; assumption) | assumption | rule refl)+
qed

subsection \<open>What a call of \<^const>\<open>crawl\<close> changes\<close>

lemma crawl_visited:
  assumes "crawl e n url b s = Some (c, s')"
  shows "visited s \<subseteq> visited s' \<and> url \<in> visited s'"
  by (rule crawl_for_links_rule(1)[where e = e
        and P = "\<lambda>url b s s'. visited s \<subseteq> visited s' \<and> url \<in> visited s'"
        and Q = "\<lambda>url b links s c s'. visited s \<subseteq> visited s'", OF _ _ _ _ _ _ _ _ _ assms])
     auto

lemma for_links_visited:
  assumes "for_links e n url b links s = Some (c, s')"
  shows "visited s \<subseteq> visited s'"
  by (rule crawl_for_links_rule(2)[where e = e
        and P = "\<lambda>url b s s'. visited s \<subseteq> visited s' \<and> url \<in> visited s'"
        and Q = "\<lambda>url b links s c s'. visited s \<subseteq> visited s'", OF _ _ _ _ _ _ _ _ _ assms])
     auto

lemma startswith_Nil [simp]: "startswith s []"
  by (cases s) simp_all

lemma crawl_scope:
  assumes "crawl e n url b s = Some (c, s')"
  shows "visited s' \<subseteq> insert url (visited s) \<union> {u. startswith u (base_or b url)}"
  by (rule crawl_for_links_rule(1)[where e = e
        and P = "\<lambda>url b s s'. visited s' \<subseteq> insert url (visited s) \<union> {u. startswith u (base_or b url)}"
        and Q = "\<lambda>url b links s c s'. visited s' \<subseteq> visited s \<union> {u. startswith u (base_or b url)}",
        OF _ _ _ _ _ _ _ _ _ assms])
     (auto simp: base_or_def split: if_splits option.splits)

lemma crawl_index_keys:
  assumes "crawl e n url b s = Some (c, s')"
  shows "fst ` set (index s') = fst ` set (index s) \<union> {u \<in> visited s' - visited s. fetched_ok e u}"
proof -
  let ?K = "\<lambda>s s'. visited s \<subseteq> visited s' \<and>
     fst ` set (index s') = fst ` set (index s) \<union> {u \<in> visited s' - visited s. fetched_ok e u}"
  have "?K s s' \<and> url \<in> visited s'"
    by (rule crawl_for_links_rule(1)[where e = e
        and P = "\<lambda>url b s s'. ?K s s' \<and> url \<in> visited s'"
        and Q = "\<lambda>url b links s c s'. ?K s s'", OF _ _ _ _ _ _ _ _ _ assms])
       (auto simp: fetched_ok_def dom_update)
  then show ?thesis by blast
qed

lemma crawl_index_map:
  assumes "crawl e n url b s = Some (c, s')"
  shows "map_of (index s') u =
     (if u \<in> visited s' - visited s
      then (case fetch_page e u of Inl x \<Rightarrow> map_of (index s) u | Inr (t, l) \<Rightarrow> Some t)
      else map_of (index s) u)"
proof -
  let ?K = "\<lambda>s s'. visited s \<subseteq> visited s' \<and> (\<forall>u. map_of (index s') u =
     (if u \<in> visited s' - visited s
      then (case fetch_page e u of Inl x \<Rightarrow> map_of (index s) u | Inr (t, l) \<Rightarrow> Some t)
      else map_of (index s) u))"
  have "?K s s' \<and> url \<in> visited s'"
    by (rule crawl_for_links_rule(1)[where e = e
        and P = "\<lambda>url b s s'. ?K s s' \<and> url \<in> visited s'"
        and Q = "\<lambda>url b links s c s'. ?K s s'", OF _ _ _ _ _ _ _ _ _ assms])
       (auto simp: update_conv split: sum.splits)
  then show ?thesis by blast
qed

lemma crawl_gets:
  assumes "crawl e n url b s = Some (c, s')"
  shows "\<exists>new. gets s' = gets s @ new \<and> set new = visited s' - visited s \<and> distinct new"
proof -
  let ?K = "\<lambda>s s'. visited s \<subseteq> visited s' \<and>
     (\<exists>new. gets s' = gets s @ new \<and> set new = visited s' - visited s \<and> distinct new)"
  have "?K s s' \<and> url \<in> visited s'"
  proof (rule crawl_for_links_rule(1)[where e = e
        and P = "\<lambda>url b s s'. ?K s s' \<and> url \<in> visited s'"
        and Q = "\<lambda>url b links s c s'. ?K s s'", OF _ _ _ _ _ _ _ _ _ assms], goal_cases)
    case (3 url b s t links c s')
    then obtain new where n: "gets s' = (gets s @ [url]) @ new"
      "set new = visited s' - insert url (visited s)" "distinct new" "insert url (visited s) \<subseteq> visited s'"
      by auto
    then have "gets s' = gets s @ (url # new) \<and> set (url # new) = visited s' - visited s
        \<and> distinct (url # new)"
      using 3(1) by auto
    with n(4) show ?case by blast
  next
    case (9 url b h r links s s1 c s')
    then obtain n1 n2 where n: "gets s1 = gets s @ n1" "set n1 = visited s1 - visited s" "distinct n1"
      "gets s' = gets s1 @ n2" "set n2 = visited s' - visited s1" "distinct n2"
      "visited s \<subseteq> visited s1" "visited s1 \<subseteq> visited s'"
      by auto
    then have "gets s' = gets s @ (n1 @ n2) \<and> set (n1 @ n2) = visited s' - visited s
        \<and> distinct (n1 @ n2)"
      by auto
    with n(7,8) show ?case by blast
  qed auto
  then show ?thesis by blast
qed

lemma crawl_index_distinct:
  assumes "crawl e n url b s = Some (c, s')"
  shows "distinct (map fst (index s)) \<Longrightarrow> distinct (map fst (index s'))"
  by (rule crawl_for_links_rule(1)[where e = e
        and P = "\<lambda>url b s s'. distinct (map fst (index s)) \<longrightarrow> distinct (map fst (index s'))"
        and Q = "\<lambda>url b links s c s'. distinct (map fst (index s)) \<longrightarrow> distinct (map fst (index s'))",
        OF _ _ _ _ _ _ _ _ _ assms, rule_format])
     (auto simp: distinct_update)

subsection \<open>The visited set is the set of reachable URLs\<close>

lemma base_or_Some [simp]: "base \<noteq> [] \<Longrightarrow> base_or (Some base) url = base"
  by (simp add: base_or_def)

lemma targets_raise:
  "h \<noteq> [] \<Longrightarrow> urljoin e base h = Inl x \<Longrightarrow> targets e base (Some h # links) = []"
  by simp

lemma targets_external:
  "h \<noteq> [] \<Longrightarrow> urljoin e base h = Inr r \<Longrightarrow> \<not> startswith r base \<Longrightarrow>
   targets e base (Some h # links) = targets e base links"
  by simp

lemma targets_internal:
  "h \<noteq> [] \<Longrightarrow> urljoin e base h = Inr r \<Longrightarrow> startswith r base \<Longrightarrow>
   targets e base (Some h # links) = r # targets e base links"
  by simp

lemma follows_fail: "fetch_page e u = Inl x \<Longrightarrow> follows e base `` {u} = {}"
  by (auto simp: follows_def)

lemma follows_page: "fetch_page e u = Inr (t, links) \<Longrightarrow> follows e base `` {u} = set (targets e base links)"
  by (auto simp: follows_def)

lemma crawl_closed_aux:
  assumes "crawl e n url b s = Some (c, s')"
  shows "base_or b url = base \<longrightarrow> base \<noteq> [] \<longrightarrow>
     visited s \<subseteq> visited s' \<and> url \<in> visited s' \<and>
     (\<forall>u \<in> visited s' - visited s. follows e base `` {u} \<subseteq> visited s')"
proof (rule crawl_for_links_rule(1)[where e = e
    and P = "\<lambda>url b s s'. base_or b url = base \<longrightarrow> base \<noteq> [] \<longrightarrow>
       visited s \<subseteq> visited s' \<and> url \<in> visited s' \<and>
       (\<forall>u \<in> visited s' - visited s. follows e base `` {u} \<subseteq> visited s')"
    and Q = "\<lambda>url b links s c s'. base_or b url = base \<longrightarrow> base \<noteq> [] \<longrightarrow>
       visited s \<subseteq> visited s' \<and> set (targets e base links) \<subseteq> visited s' \<and>
       (\<forall>u \<in> visited s' - visited s. follows e base `` {u} \<subseteq> visited s')",
    OF _ _ _ _ _ _ _ _ _ assms], goal_cases)
  case (1 url b s)
  then show ?case by simp
next
  case (2 url b s x)
  have "follows e base `` {url} = {}" by (rule follows_fail[OF 2(2)])
  then show ?case by auto
next
  case (3 url b s t links c s')
  show ?case
  proof (intro impI)
    assume b: "base_or b url = base" "base \<noteq> []"
    with 3(3) have q: "insert url (visited s) \<subseteq> visited s'" "set (targets e base links) \<subseteq> visited s'"
      "\<forall>u \<in> visited s' - insert url (visited s). follows e base `` {u} \<subseteq> visited s'"
      by auto
    have "follows e base `` {url} \<subseteq> visited s'"
      using q(2) follows_page[OF 3(2)] by simp
    with q show "visited s \<subseteq> visited s' \<and> url \<in> visited s' \<and>
       (\<forall>u \<in> visited s' - visited s. follows e base `` {u} \<subseteq> visited s')"
      by blast
  qed
next
  case (4 url b s)
  then show ?case by simp
next
  case (5 url b links s c s')
  then show ?case by simp
next
  case (6 url b links s c s')
  then show ?case by simp
next
  case (7 url b h links s x)
  show ?case
  proof (intro impI)
    assume b: "base_or b url = base" "base \<noteq> []"
    have "targets e base (Some h # links) = []"
      using targets_raise[OF 7(1)] 7(2) b by simp
    then show "visited s \<subseteq> visited s \<and> set (targets e base (Some h # links)) \<subseteq> visited s \<and>
       (\<forall>u \<in> visited s - visited s. follows e base `` {u} \<subseteq> visited s)"
      by simp
  qed
next
  case (8 url b h r links s c s')
  show ?case
  proof (intro impI)
    assume b: "base_or b url = base" "base \<noteq> []"
    have t: "targets e base (Some h # links) = targets e base links"
      using targets_external[OF 8(1)] 8(2,3) b by simp
    from b 8(4) show "visited s \<subseteq> visited s' \<and> set (targets e base (Some h # links)) \<subseteq> visited s' \<and>
       (\<forall>u \<in> visited s' - visited s. follows e base `` {u} \<subseteq> visited s')"
      unfolding t by simp
  qed
next
  case (9 url b h r links s s1 c s')
  show ?case
  proof (intro impI)
    assume b: "base_or b url = base" "base \<noteq> []"
    with 9(4) have p: "visited s \<subseteq> visited s1" "r \<in> visited s1"
      "\<forall>u \<in> visited s1 - visited s. follows e base `` {u} \<subseteq> visited s1"
      by auto
    from b 9(5) have q: "visited s1 \<subseteq> visited s'" "set (targets e base links) \<subseteq> visited s'"
      "\<forall>u \<in> visited s' - visited s1. follows e base `` {u} \<subseteq> visited s'"
      by auto
    have t: "targets e base (Some h # links) = r # targets e base links"
      using targets_internal[OF 9(1)] 9(2,3) b by simp
    have "\<forall>u \<in> visited s' - visited s. follows e base `` {u} \<subseteq> visited s'"
    proof
      fix u assume u: "u \<in> visited s' - visited s"
      show "follows e base `` {u} \<subseteq> visited s'"
      proof (cases "u \<in> visited s1")
        case True
        with u p(3) have "follows e base `` {u} \<subseteq> visited s1" by blast
        with q(1) show ?thesis by blast
      next
        case False
        with u q(3) show ?thesis by blast
      qed
    qed
    with p q t show "visited s \<subseteq> visited s' \<and> set (targets e base (Some h # links)) \<subseteq> visited s' \<and>
       (\<forall>u \<in> visited s' - visited s. follows e base `` {u} \<subseteq> visited s')"
      by auto
  qed
qed

lemma crawl_sound_aux:
  assumes "crawl e n url b s = Some (c, s')"
  shows "base_or b url = base \<longrightarrow> base \<noteq> [] \<longrightarrow>
     visited s' \<subseteq> visited s \<union> (follows e base)\<^sup>* `` {url}"
proof (rule crawl_for_links_rule(1)[where e = e
    and P = "\<lambda>url b s s'. base_or b url = base \<longrightarrow> base \<noteq> [] \<longrightarrow>
       visited s' \<subseteq> visited s \<union> (follows e base)\<^sup>* `` {url}"
    and Q = "\<lambda>url b links s c s'. base_or b url = base \<longrightarrow> base \<noteq> [] \<longrightarrow>
       visited s' \<subseteq> visited s \<union> (follows e base)\<^sup>* `` set (targets e base links)",
    OF _ _ _ _ _ _ _ _ _ assms], goal_cases)
  case (3 url b s t links c s')
  show ?case
  proof (intro impI)
    assume b: "base_or b url = base" "base \<noteq> []"
    with 3(3) have q: "visited s' \<subseteq> insert url (visited s) \<union> (follows e base)\<^sup>* `` set (targets e base links)"
      by simp
    have "set (targets e base links) \<subseteq> follows e base `` {url}"
      using follows_page[OF 3(2)] by simp
    then have "(follows e base)\<^sup>* `` set (targets e base links) \<subseteq> (follows e base)\<^sup>* `` {url}"
      by (auto intro: converse_rtrancl_into_rtrancl)
    with q show "visited s' \<subseteq> visited s \<union> (follows e base)\<^sup>* `` {url}"
      by auto
  qed
next
  case (9 url b h r links s s1 c s')
  show ?case
  proof (intro impI)
    assume b: "base_or b url = base" "base \<noteq> []"
    have t: "targets e base (Some h # links) = r # targets e base links"
      using targets_internal[OF 9(1)] 9(2,3) b by simp
    from b 9(4) have "visited s1 \<subseteq> visited s \<union> (follows e base)\<^sup>* `` {r}" by simp
    moreover from b 9(5) have "visited s' \<subseteq> visited s1 \<union> (follows e base)\<^sup>* `` set (targets e base links)"
      by simp
    ultimately show "visited s' \<subseteq> visited s \<union> (follows e base)\<^sup>* `` set (targets e base (Some h # links))"
      unfolding t by auto
  qed
next
  case (7 url b h links s x)
  then show ?case by simp
next
  case (8 url b h r links s c s')
  show ?case
  proof (intro impI)
    assume b: "base_or b url = base" "base \<noteq> []"
    have t: "targets e base (Some h # links) = targets e base links"
      using targets_external[OF 8(1)] 8(2,3) b by simp
    from b 8(4) show "visited s' \<subseteq> visited s \<union> (follows e base)\<^sup>* `` set (targets e base (Some h # links))"
      unfolding t by simp
  qed
qed auto

lemma crawl_reach:
  assumes run: "crawl e n seed None init = Some (c, s')" and ne: "seed \<noteq> []"
  shows "visited s' = (follows e seed)\<^sup>* `` {seed}"
proof
  have b: "base_or None seed = seed" by (simp add: base_or_def)
  show "visited s' \<subseteq> (follows e seed)\<^sup>* `` {seed}"
    using crawl_sound_aux[OF run, of seed] b ne by (simp add: init_def)
  have cl: "seed \<in> visited s'" "\<forall>u \<in> visited s'. follows e seed `` {u} \<subseteq> visited s'"
    using crawl_closed_aux[OF run, of seed] b ne by (auto simp: init_def)
  show "(follows e seed)\<^sup>* `` {seed} \<subseteq> visited s'"
  proof
    fix v assume "v \<in> (follows e seed)\<^sup>* `` {seed}"
    then have "(seed, v) \<in> (follows e seed)\<^sup>*" by simp
    then show "v \<in> visited s'"
      by (induction rule: rtrancl_induct) (use cl in blast)+
  qed
qed

subsection \<open>Termination\<close>

lemma crawl_skip: "url \<in> visited s \<Longrightarrow> crawl e (Suc n) url b s = Some (Normal, s)"
  by (simp add: try_mark_def)

lemma crawl_fail:
  "url \<notin> visited s \<Longrightarrow> fetch_page e url = Inl x \<Longrightarrow>
   crawl e (Suc n) url b s =
     Some (Normal, s\<lparr>visited := insert url (visited s), gets := gets s @ [url]\<rparr>)"
  by (simp add: try_mark_def handlers_Normal)

lemma crawl_page:
  "url \<notin> visited s \<Longrightarrow> fetch_page e url = Inr (t, links) \<Longrightarrow>
   for_links e n url b links
     (s\<lparr>visited := insert url (visited s), gets := gets s @ [url],
        index := AList.update url t (index s)\<rparr>) = Some (c, s') \<Longrightarrow>
   crawl e (Suc n) url b s = Some (Normal, s')"
  by (simp add: try_mark_def handlers_Normal)

lemma for_links_total:
  assumes crawl_ok: "\<And>r s. r \<in> U \<Longrightarrow> card (U - visited s) \<le> k \<Longrightarrow>
            \<exists>s'. crawl e n r (Some base) s = Some (Normal, s')"
    and b: "base_or b url = base" "base \<noteq> []" and fin: "finite U"
  shows "set (targets e base links) \<subseteq> U \<Longrightarrow> card (U - visited s) \<le> k \<Longrightarrow>
         \<exists>c s'. for_links e n url b links s = Some (c, s')"
proof (induction links arbitrary: s)
  case Nil
  then show ?case by simp
next
  case (Cons link links)
  show ?case
  proof (cases link)
    case None
    with Cons show ?thesis by simp
  next
    case (Some h)
    show ?thesis
    proof (cases "h = []")
      case True
      with Some Cons show ?thesis by simp
    next
      case False
      show ?thesis
      proof (cases "urljoin e base h")
        case (Inl x)
        with Some False b show ?thesis by simp
      next
        case (Inr r)
        show ?thesis
        proof (cases "startswith r base")
          case out: False
          have "targets e base (link # links) = targets e base links"
            using Some targets_external[OF False Inr out] by simp
          with Cons have "\<exists>c s'. for_links e n url b links s = Some (c, s')" by simp
          with Some False Inr out b show ?thesis by simp
        next
          case True
          have t: "targets e base (link # links) = r # targets e base links"
            using Some targets_internal[OF False Inr True] by simp
          with Cons.prems have "r \<in> U" "set (targets e base links) \<subseteq> U" by auto
          from crawl_ok[OF \<open>r \<in> U\<close> Cons.prems(2)] obtain s1 where
            c1: "crawl e n r (Some base) s = Some (Normal, s1)" by blast
          have "visited s \<subseteq> visited s1" using crawl_visited[OF c1] by simp
          then have "U - visited s1 \<subseteq> U - visited s" by blast
          then have "card (U - visited s1) \<le> card (U - visited s)"
            using fin by (intro card_mono) auto
          with Cons.prems(2) have "card (U - visited s1) \<le> k" by simp
          from Cons.IH[OF \<open>set (targets e base links) \<subseteq> U\<close> this]
          obtain c s' where "for_links e n url b links s1 = Some (c, s')" by blast
          with Some False Inr True b c1 show ?thesis by simp
        qed
      qed
    qed
  qed
qed

lemma crawl_total_aux:
  assumes fin: "finite U" and closed: "follows e base `` U \<subseteq> U" and ne: "base \<noteq> []"
  shows "url \<in> U \<Longrightarrow> base_or b url = base \<Longrightarrow> card (U - visited s) \<le> k \<Longrightarrow>
         \<exists>s'. crawl e (Suc k) url b s = Some (Normal, s')"
proof (induction k arbitrary: url b s)
  case 0
  then have "U - visited s = {}" using fin by simp
  with 0 have "url \<in> visited s" by blast
  then show ?case using crawl_skip by blast
next
  case (Suc k)
  show ?case
  proof (cases "url \<in> visited s")
    case True
    then show ?thesis using crawl_skip by blast
  next
    case False
    show ?thesis
    proof (cases "fetch_page e url")
      case (Inl x)
      with False show ?thesis using crawl_fail by blast
    next
      case (Inr p)
      obtain t links where p: "p = (t, links)" by (cases p)
      let ?s3 = "s\<lparr>visited := insert url (visited s), gets := gets s @ [url],
                    index := AList.update url t (index s)\<rparr>"
      have "url \<in> U - visited s" using False Suc.prems by simp
      then have "card (U - visited s - {url}) < card (U - visited s)"
        using fin by (intro card_Diff1_less) auto
      moreover have "U - visited ?s3 = U - visited s - {url}" by auto
      ultimately have k: "card (U - visited ?s3) \<le> k" using Suc.prems(3) by simp
      have tg: "set (targets e base links) \<subseteq> U"
        using follows_page[of e url t links base] Inr p closed Suc.prems(1) by blast
      have ih: "\<exists>s'. crawl e (Suc k) r (Some base) s = Some (Normal, s')"
        if "r \<in> U" "card (U - visited s) \<le> k" for r s
        using Suc.IH[OF that(1) _ that(2), of "Some base"] ne by simp
      obtain c s' where "for_links e (Suc k) url b links ?s3 = Some (c, s')"
        using for_links_total[where U = U and k = k and e = e and n = "Suc k" and base = base,
            OF ih Suc.prems(2) ne fin tg k] by blast
      then show ?thesis using crawl_page[OF False] Inr p by blast
    qed
  qed
qed

lemma crawl_total:
  assumes fin: "finite ((follows e base)\<^sup>* `` {url})" and b: "base_or b url = base" "base \<noteq> []"
    and n: "card ((follows e base)\<^sup>* `` {url}) < n"
  shows "\<exists>s'. crawl e n url b s = Some (Normal, s')"
proof -
  let ?U = "(follows e base)\<^sup>* `` {url}"
  obtain k where k: "n = Suc k" using n by (cases n) auto
  have closed: "follows e base `` ?U \<subseteq> ?U" by (auto intro: rtrancl_into_rtrancl)
  have "card (?U - visited s) \<le> card ?U" using fin by (intro card_mono) auto
  with n k have "card (?U - visited s) \<le> k" by simp
  from crawl_total_aux[OF fin closed b(2) _ b(1) this] show ?thesis unfolding k by blast
qed

text \<open>Results do not depend on the fuel.\<close>

lemma crawl_stable_aux:
  assumes "crawl e n url b s = Some (c, s')"
  shows "\<exists>n0. \<forall>m \<ge> n0. crawl e m url b s = Some (Normal, s')"
proof (rule crawl_for_links_rule(1)[where e = e
    and P = "\<lambda>url b s s'. \<exists>n0. \<forall>m \<ge> n0. crawl e m url b s = Some (Normal, s')"
    and Q = "\<lambda>url b links s c s'. \<exists>n0. \<forall>m \<ge> n0. for_links e m url b links s = Some (c, s')",
    OF _ _ _ _ _ _ _ _ _ assms], goal_cases)
  case (1 url b s)
  have "\<forall>m \<ge> Suc 0. crawl e m url b s = Some (Normal, s)"
  proof (intro allI impI)
    fix m assume "Suc 0 \<le> m"
    then obtain m' where "m = Suc m'" by (cases m) auto
    then show "crawl e m url b s = Some (Normal, s)" using crawl_skip[OF 1] by blast
  qed
  then show ?case by blast
next
  case (2 url b s x)
  have "\<forall>m \<ge> Suc 0. crawl e m url b s =
      Some (Normal, s\<lparr>visited := insert url (visited s), gets := gets s @ [url]\<rparr>)"
  proof (intro allI impI)
    fix m assume "Suc 0 \<le> m"
    then obtain m' where "m = Suc m'" by (cases m) auto
    then show "crawl e m url b s =
      Some (Normal, s\<lparr>visited := insert url (visited s), gets := gets s @ [url]\<rparr>)"
      using crawl_fail[OF 2] by blast
  qed
  then show ?case by blast
next
  case (3 url b s t links c s')
  then obtain n0 where n0: "\<forall>m \<ge> n0. for_links e m url b links
      (s\<lparr>visited := insert url (visited s), gets := gets s @ [url],
         index := AList.update url t (index s)\<rparr>) = Some (c, s')" by blast
  have "\<forall>m \<ge> Suc n0. crawl e m url b s = Some (Normal, s')"
  proof (intro allI impI)
    fix m assume "Suc n0 \<le> m"
    then obtain m' where m: "m = Suc m'" "n0 \<le> m'" by (cases m) auto
    with n0 show "crawl e m url b s = Some (Normal, s')"
      using crawl_page[OF 3(1,2)] by blast
  qed
  then show ?case by blast
next
  case (4 url b s)
  then show ?case by simp
next
  case (5 url b links s c s')
  then show ?case by simp
next
  case (6 url b links s c s')
  then show ?case by simp
next
  case (7 url b h links s x)
  then show ?case by simp
next
  case (8 url b h r links s c s')
  then show ?case by simp
next
  case (9 url b h r links s s1 c s')
  then obtain n1 n2 where n1: "\<forall>m \<ge> n1. crawl e m r (Some (base_or b url)) s = Some (Normal, s1)"
    and n2: "\<forall>m \<ge> n2. for_links e m url b links s1 = Some (c, s')" by blast
  have "\<forall>m \<ge> max n1 n2. for_links e m url b (Some h # links) s = Some (c, s')"
    using n1 n2 9(1,2,3) by simp
  then show ?case by blast
qed

lemma crawl_fuel_unique:
  assumes "crawl e n url b s = Some (c, s')" and "crawl e m url b s = Some (c', s'')"
  shows "c' = c \<and> s'' = s'"
proof -
  obtain n0 where n0: "\<forall>k \<ge> n0. crawl e k url b s = Some (Normal, s')"
    using crawl_stable_aux[OF assms(1)] by blast
  obtain m0 where m0: "\<forall>k \<ge> m0. crawl e k url b s = Some (Normal, s'')"
    using crawl_stable_aux[OF assms(2)] by blast
  have "crawl e (max n0 m0) url b s = Some (Normal, s')"
    using n0[rule_format, of "max n0 m0"] by simp
  moreover have "crawl e (max n0 m0) url b s = Some (Normal, s'')"
    using m0[rule_format, of "max n0 m0"] by simp
  ultimately have "s'' = s'" by simp
  moreover have "c = Normal" "c' = Normal" using assms crawl_Normal by blast+
  ultimately show ?thesis by simp
qed

subsection \<open>The states passed through\<close>

lemma crawl_index_visited:
  assumes "crawl e n url b s = Some (c, s')" and "index_visited s"
  shows "index_visited s'"
  using crawl_index_keys[OF assms(1)] crawl_visited[OF assms(1)] assms(2)
  unfolding index_visited_def by auto

lemma states_index_visited:
  "index_visited s \<Longrightarrow> \<forall>t \<in> set (crawl_states e n url b s). index_visited t"
  "index_visited s \<Longrightarrow> \<forall>t \<in> set (for_links_states e n url b links s). index_visited t"
proof (induction e n url b s and e n url b links s rule: crawl_states_for_links_states.induct)
  case (1 e url base_url s)
  then show ?case by simp
next
  case (2 e n url base_url s)
  show ?case
  proof (cases "url \<in> visited s")
    case True
    then show ?thesis by (simp add: try_mark_def)
  next
    case False
    let ?s1 = "s\<lparr>visited := insert url (visited s)\<rparr>"
    let ?s2 = "s\<lparr>visited := insert url (visited s), gets := gets s @ [url]\<rparr>"
    have i12: "index_visited ?s1" "index_visited ?s2"
      using "2.prems" by (auto simp: index_visited_def)
    show ?thesis
    proof (cases "fetch_page e url")
      case (Inl x)
      with False i12 show ?thesis by (simp add: try_mark_def Let_def)
    next
      case (Inr p)
      obtain t links where p: "p = (t, links)" by (cases p)
      let ?s3 = "s\<lparr>visited := insert url (visited s), gets := gets s @ [url],
                    index := AList.update url t (index s)\<rparr>"
      have i3: "index_visited ?s3"
        using "2.prems" by (auto simp: index_visited_def dom_update)
      have "\<forall>t \<in> set (for_links_states e n url base_url links ?s3). index_visited t"
        using "2.IH"[of True ?s1 ?s2 "(t, links)" t links ?s3] False Inr p i3
        by (simp add: try_mark_def)
      with False Inr p i12 i3 show ?thesis by (simp add: try_mark_def Let_def)
    qed
  qed
next
  case (3 e n url base_url s)
  then show ?case by simp
next
  case (4 e n url base_url link links s)
  show ?case
  proof (cases link)
    case None
    with 4 show ?thesis by simp
  next
    case (Some h)
    show ?thesis
    proof (cases "h = []")
      case True
      with Some 4 show ?thesis by simp
    next
      case False
      show ?thesis
      proof (cases "urljoin e (base_or base_url url) h")
        case (Inl x)
        with Some False show ?thesis by simp
      next
        case (Inr r)
        show ?thesis
        proof (cases "startswith r (base_or base_url url)")
          case out: False
          with Some False Inr "4.prems" "4.IH"(5) show ?thesis by simp
        next
          case True
          have a: "\<forall>t \<in> set (crawl_states e n r (Some (base_or base_url url)) s). index_visited t"
            using "4.IH"(3)[OF Some False Inr True "4.prems"] .
          show ?thesis
          proof (cases "crawl e n r (Some (base_or base_url url)) s")
            case None
            with Some False Inr True a show ?thesis by simp
          next
            case (Some res)
            obtain c s1 where res: "res = (c, s1)" by (cases res)
            have c: "c = Normal" using crawl_Normal Some res by blast
            have "index_visited s1"
              using crawl_index_visited[OF _ "4.prems"] Some res by blast
            then have "\<forall>t \<in> set (for_links_states e n url base_url links s1). index_visited t"
              using "4.IH"(4)[OF \<open>link = Some h\<close> False Inr True Some, of c s1] res c by simp
            with \<open>link = Some h\<close> False Inr True a Some res c show ?thesis by auto
          qed
        qed
      qed
    qed
  qed
qed

lemma last_append_run: "last (s # xs @ ys) = last (last (s # xs) # ys)"
  by (cases ys) (auto)

lemma states_last:
  "crawl e n url b s = Some (c, s') \<Longrightarrow> last (s # crawl_states e n url b s) = s'"
  "for_links e n url b links s = Some (c, s') \<Longrightarrow> last (s # for_links_states e n url b links s) = s'"
proof (induction e n url b s and e n url b links s arbitrary: c s' and c s'
       rule: crawl_for_links.induct)
  case (1 e url base_url s)
  then show ?case by simp
next
  case (2 e n url base_url s)
  show ?case
  proof (cases "url \<in> visited s")
    case True
    with "2.prems" show ?thesis by (simp add: try_mark_def)
  next
    case False
    show ?thesis
    proof (cases "fetch_page e url")
      case (Inl x)
      with False "2.prems" show ?thesis by (auto simp: try_mark_def Let_def)
    next
      case (Inr p)
      obtain t links where p: "p = (t, links)" by (cases p)
      let ?s3 = "s\<lparr>visited := insert url (visited s), gets := gets s @ [url],
                    index := AList.update url t (index s)\<rparr>"
      from False Inr p "2.prems" obtain c0 where
        run: "for_links e n url base_url links ?s3 = Some (c0, s')"
        by (auto simp: try_mark_def split: option.splits)
      have "last (?s3 # for_links_states e n url base_url links ?s3) = s'"
        using "2.IH"[of True "s\<lparr>visited := insert url (visited s)\<rparr>"
            "s\<lparr>visited := insert url (visited s), gets := gets s @ [url]\<rparr>" "(t, links)" t links ?s3 c0 s']
          False Inr p run by (simp add: try_mark_def)
      with False Inr p show ?thesis by (simp add: try_mark_def Let_def)
    qed
  qed
next
  case (3 e n url base_url s)
  then show ?case by simp
next
  case (4 e n url base_url link links s)
  show ?case
  proof (cases link)
    case None
    with 4 show ?thesis by simp
  next
    case (Some h)
    show ?thesis
    proof (cases "h = []")
      case True
      with Some 4 show ?thesis by simp
    next
      case False
      show ?thesis
      proof (cases "urljoin e (base_or base_url url) h")
        case (Inl x)
        with Some False "4.prems" show ?thesis by auto
      next
        case (Inr r)
        show ?thesis
        proof (cases "startswith r (base_or base_url url)")
          case out: False
          with Some False Inr "4.prems" "4.IH"(5) show ?thesis by auto
        next
          case True
          with Some False Inr "4.prems" obtain s1 where
            c1: "crawl e n r (Some (base_or base_url url)) s = Some (Normal, s1)" and
            r2: "for_links e n url base_url links s1 = Some (c, s')"
            by (auto split: option.splits completion.splits dest: crawl_Normal)
          have a: "last (s # crawl_states e n r (Some (base_or base_url url)) s) = s1"
            using "4.IH"(3)[OF Some False Inr True c1] .
          have b: "last (s1 # for_links_states e n url base_url links s1) = s'"
            using "4.IH"(4)[OF Some False Inr True c1, of Normal s1 c s'] r2 by simp
          have "for_links_states e n url base_url (link # links) s =
              crawl_states e n r (Some (base_or base_url url)) s @
              for_links_states e n url base_url links s1"
            using Some False Inr True c1 by simp
          then show ?thesis using a b by (simp only: last_append_run)
        qed
      qed
    qed
  qed
qed

subsection \<open>The example sites\<close>

lemma chain_run:
  "crawl (site chain_pages) 3 ''https://example.com'' None init =
     Some (Normal,
       \<lparr>index = [(''https://example.com'', ''page A''), (''https://example.com/b'', ''page B''),
                 (''https://example.com/c'', ''page C'')],
        visited = {''https://example.com'', ''https://example.com/b'', ''https://example.com/c''},
        gets = [''https://example.com'', ''https://example.com/b'', ''https://example.com/c'']\<rparr>)"
  by (simp add: eval_nat_numeral site_def chain_pages_def init_def try_mark_def fetch_page_def
      urljoin_example_def base_or_def insert_commute)

lemmas run_defs = eval_nat_numeral site_def init_def try_mark_def fetch_page_def
  urljoin_example_def base_or_def insert_commute Let_def

lemma scenario_run:
  "crawl (site scenario_pages) 2 ''https://example.com'' None init =
     Some (Normal,
       \<lparr>index = [(''https://example.com'', ''home''), (''https://example.com/about'', ''about''),
                 (''https://example.com/about#frag'', ''about'')],
        visited = {''https://example.com'', ''https://example.com/about'',
                   ''https://example.com/about#frag''},
        gets = [''https://example.com'', ''https://example.com/about'',
                ''https://example.com/about#frag'']\<rparr>)"
  by (simp add: run_defs scenario_pages_def)

lemma sample_run:
  "crawl sample_site 5 ''https://example.com'' None init =
     Some (Normal,
       \<lparr>index =
          [(''https://example.com'', ''Welcome! About Us External Link Contact Section Link''),
           (''https://example.com/about'', ''Welcome! About Us External Link Contact Section Link''),
           (''https://example.com/contact'', ''Welcome! About Us External Link Contact Section Link''),
           (''https://example.com#section'', ''Welcome! About Us External Link Contact Section Link'')],
        visited = {''https://example.com'', ''https://example.com/about'',
                   ''https://example.com/contact'', ''https://example.com#section''},
        gets = [''https://example.com'', ''https://example.com/about'',
                ''https://example.com/contact'', ''https://example.com#section'']\<rparr>)"
  by (simp add: run_defs sample_site_def)

lemma sample_other_run:
  "crawl sample_site 5 ''https://other.org'' (Some ''https://example.com'') init =
     Some (Normal,
       \<lparr>index =
          [(''https://other.org'', ''Welcome! About Us External Link Contact Section Link''),
           (''https://example.com/about'', ''Welcome! About Us External Link Contact Section Link''),
           (''https://example.com/contact'', ''Welcome! About Us External Link Contact Section Link''),
           (''https://example.com#section'', ''Welcome! About Us External Link Contact Section Link'')],
        visited = {''https://other.org'', ''https://example.com/about'',
                   ''https://example.com/contact'', ''https://example.com#section''},
        gets = [''https://other.org'', ''https://example.com/about'',
                ''https://example.com/contact'', ''https://example.com#section'']\<rparr>)"
  by (simp add: run_defs sample_site_def)

lemma broken_run:
  "crawl (site broken_pages) 2 ''https://example.com'' None init =
     Some (Normal,
       \<lparr>index = [(''https://example.com'', ''home'')],
        visited = {''https://example.com''},
        gets = [''https://example.com'']\<rparr>)"
  by (simp add: run_defs broken_pages_def)

lemma evil_run:
  "crawl (site evil_pages) 2 ''https://example.com'' None init =
     Some (Normal,
       \<lparr>index = [(''https://example.com'', ''home''), (''https://example.com.evil.com'', ''evil'')],
        visited = {''https://example.com'', ''https://example.com.evil.com''},
        gets = [''https://example.com'', ''https://example.com.evil.com'']\<rparr>)"
  by (simp add: run_defs evil_pages_def)

lemma dead_link_run:
  "crawl (site dead_link_pages) 2 ''https://example.com'' None init =
     Some (Normal,
       \<lparr>index = [(''https://example.com'', ''home''), (''https://example.com/about'', ''about'')],
        visited = {''https://example.com'', ''https://example.com/gone'',
                   ''https://example.com/about''},
        gets = [''https://example.com'', ''https://example.com/gone'',
                ''https://example.com/about'']\<rparr>)"
  by (simp add: run_defs dead_link_pages_def)

section \<open>The claims\<close>

subsection \<open>C1: the visited set after a crawl\<close>

lemma targets_all:
  assumes "\<forall>h. Some h \<in> set links \<longrightarrow> (\<exists>r. urljoin e base h = Inr r)"
  shows "set (targets e base links) =
     {v. \<exists>h. Some h \<in> set links \<and> h \<noteq> [] \<and> urljoin e base h = Inr v \<and> startswith v base}"
  using assms
proof (induction links)
  case Nil
  then show ?case by simp
next
  case (Cons link links)
  then have ih: "set (targets e base links) =
     {v. \<exists>h. Some h \<in> set links \<and> h \<noteq> [] \<and> urljoin e base h = Inr v \<and> startswith v base}"
    by simp
  show ?case
  proof (cases link)
    case None
    with ih show ?thesis by simp
  next
    case (Some h)
    with Cons.prems obtain r where r: "urljoin e base h = Inr r" by auto
    show ?thesis
    proof (cases "h = []")
      case True
      with Some ih show ?thesis by auto
    next
      case False
      show ?thesis
      proof (cases "startswith r base")
        case True
        have "targets e base (link # links) = r # targets e base links"
          using Some targets_internal[OF False r True] by simp
        with ih Some False r True show ?thesis by auto
      next
        case out: False
        have "targets e base (link # links) = targets e base links"
          using Some targets_external[OF False r out] by simp
        with ih Some False r out show ?thesis by auto
      qed
    qed
  qed
qed

lemma follows_subset_links_to: "follows e base \<subseteq> links_to e base"
proof -
  have "set (targets e base links) \<subseteq>
     {v. \<exists>h. Some h \<in> set links \<and> h \<noteq> [] \<and> urljoin e base h = Inr v \<and> startswith v base}"
    for links
  proof (induction links)
    case Nil
    then show ?case by simp
  next
    case (Cons link links)
    show ?case
    proof (cases link)
      case None
      with Cons show ?thesis by auto
    next
      case (Some h)
      show ?thesis
      proof (cases "h = []")
        case True
        with Some Cons show ?thesis by auto
      next
        case False
        show ?thesis
        proof (cases "urljoin e base h")
          case (Inl x)
          then show ?thesis using Some targets_raise[OF False Inl] by simp
        next
          case (Inr r)
          show ?thesis
          proof (cases "startswith r base")
            case True
            have "targets e base (link # links) = r # targets e base links"
              using Some targets_internal[OF False Inr True] by simp
            with Cons Some False Inr True show ?thesis by auto
          next
            case out: False
            have "targets e base (link # links) = targets e base links"
              using Some targets_external[OF False Inr out] by simp
            with Cons Some show ?thesis by auto
          qed
        qed
      qed
    qed
  qed
  then show ?thesis unfolding follows_def links_to_def by blast
qed

text \<open>
  When \<^verbatim>\<open>urljoin\<close> raises on no reference, the loop crawls every link that resolves to an
  in-scope URL.
\<close>

lemma follows_eq_links_to:
  assumes "\<forall>h. \<exists>r. urljoin e base h = Inr r"
  shows "follows e base = links_to e base"
proof -
  have "set (targets e base links) =
     {v. \<exists>h. Some h \<in> set links \<and> h \<noteq> [] \<and> urljoin e base h = Inr v \<and> startswith v base}"
    for links using targets_all[of links e base] assms by blast
  then show ?thesis unfolding follows_def links_to_def by auto
qed

lemma links_to_broken:
  "(''https://example.com'', ''https://example.com/about'')
     \<in> links_to (site broken_pages) ''https://example.com''"
proof -
  have "fetch_page (site broken_pages) ''https://example.com'' =
      Inr (''home'', [Some ''//['', Some ''/about''])"
    by (simp add: site_def broken_pages_def fetch_page_def)
  moreover have "urljoin (site broken_pages) ''https://example.com'' ''/about'' =
      Inr ''https://example.com/about''"
    by (simp add: site_def urljoin_example_def)
  moreover have "startswith ''https://example.com/about'' ''https://example.com''"
    by simp
  moreover have "Some ''/about'' \<in> set [Some ''//['', Some ''/about'']" "''/about'' \<noteq> []"
    by simp_all
  ultimately show ?thesis unfolding links_to_def by blast
qed

text \<open>
  C1 as stated fails. On the site \<^const>\<open>broken_pages\<close> the seed page has the references
  \<^verbatim>\<open>//[\<close> and \<^verbatim>\<open>/about\<close>. \<^verbatim>\<open>urljoin\<close> raises \<^verbatim>\<open>ValueError\<close> on the first, the second
  \<^verbatim>\<open>except\<close> clause catches it outside the loop, and \<^verbatim>\<open>/about\<close>, which resolves to an
  in-scope URL of a page fetched successfully, is never visited.
\<close>

theorem visited_not_all_links_counterexample:
  "crawl (site broken_pages) 2 ''https://example.com'' None init =
     Some (Normal,
       \<lparr>index = [(''https://example.com'', ''home'')],
        visited = {''https://example.com''},
        gets = [''https://example.com'']\<rparr>)
   \<and> (''https://example.com'', ''https://example.com/about'')
        \<in> (links_to (site broken_pages) ''https://example.com'')\<^sup>*
   \<and> ''https://example.com/about''
        \<notin> visited (snd (the (crawl (site broken_pages) 2 ''https://example.com'' None init)))"
  using broken_run links_to_broken by auto

text \<open>
  C1, amended: on a fresh crawler and for a seed that is not the empty string, after
  \<^verbatim>\<open>crawl(seed)\<close> returns a URL is in the visited set if and only if it is the seed or
  can be reached from the seed through successfully fetched pages by links that the loop
  follows: links that resolve to an in-scope URL and stand before any reference of their
  page on which \<^verbatim>\<open>urljoin\<close> raises. Every such link is a link that resolves to an
  in-scope URL.
\<close>

theorem visited_iff_followed:
  "seed \<noteq> [] \<Longrightarrow> crawl e n seed None init = Some (c, s') \<Longrightarrow>
   (u \<in> visited s') = ((seed, u) \<in> (follows e seed)\<^sup>*) \<and> follows e seed \<subseteq> links_to e seed"
  using crawl_reach[of e n seed c s'] follows_subset_links_to[of e seed] by auto

theorem visited_iff_followed_witness:
  "''https://example.com'' \<noteq> []
   \<and> crawl (site chain_pages) 3 ''https://example.com'' None init =
       Some (Normal,
         \<lparr>index = [(''https://example.com'', ''page A''), (''https://example.com/b'', ''page B''),
                   (''https://example.com/c'', ''page C'')],
          visited = {''https://example.com'', ''https://example.com/b'', ''https://example.com/c''},
          gets = [''https://example.com'', ''https://example.com/b'', ''https://example.com/c'']\<rparr>)
   \<and> (''https://example.com'', ''https://example.com/c'')
        \<in> (follows (site chain_pages) ''https://example.com'')\<^sup>*
   \<and> (''https://example.com'', ''https://example.com/d'')
        \<notin> (follows (site chain_pages) ''https://example.com'')\<^sup>*"
proof -
  have ne: "''https://example.com'' \<noteq> []" by simp
  note v = visited_iff_followed[OF ne chain_run, THEN conjunct1]
  have "(''https://example.com'', ''https://example.com/c'')
        \<in> (follows (site chain_pages) ''https://example.com'')\<^sup>*"
    using v[of "''https://example.com/c''"] by simp
  moreover have "(''https://example.com'', ''https://example.com/d'')
        \<notin> (follows (site chain_pages) ''https://example.com'')\<^sup>*"
    using v[of "''https://example.com/d''"] by simp
  ultimately show ?thesis using chain_run by simp
qed

subsection \<open>C2: the index holds the pages fetched successfully\<close>

text \<open>
  C2: after a crawl on a fresh crawler a URL has an entry in the index if and only if
  it was visited and its fetch and text extraction both succeeded. When the fetch or the
  parse of a URL not yet visited fails, \<^verbatim>\<open>crawl\<close> returns normally, the URL is marked
  visited and requested once, and nothing else changes: no index entry, no link
  followed.
\<close>

theorem index_iff_fetch_succeeded:
  "(crawl e n seed b init = Some (c, s') \<longrightarrow>
      (u \<in> fst ` set (index s')) = (u \<in> visited s' \<and> (\<exists>t l. fetch_page e u = Inr (t, l))))
   \<and> (url \<notin> visited s \<and> fetch_page e url = Inl x \<longrightarrow>
      crawl e (Suc m) url b' s =
        Some (Normal, s\<lparr>visited := insert url (visited s), gets := gets s @ [url]\<rparr>))"
proof (intro conjI impI)
  assume run: "crawl e n seed b init = Some (c, s')"
  show "(u \<in> fst ` set (index s')) = (u \<in> visited s' \<and> (\<exists>t l. fetch_page e u = Inr (t, l)))"
    using crawl_index_keys[OF run] by (auto simp: init_def fetched_ok_def)
next
  assume "url \<notin> visited s \<and> fetch_page e url = Inl x"
  then show "crawl e (Suc m) url b' s =
        Some (Normal, s\<lparr>visited := insert url (visited s), gets := gets s @ [url]\<rparr>)"
    using crawl_fail by blast
qed

lemma dead_link_gone:
  "fetch_page (site dead_link_pages) ''https://example.com/gone'' = Inl RequestException"
  by (simp add: site_def dead_link_pages_def fetch_page_def)

theorem index_iff_fetch_succeeded_witness:
  "crawl (site dead_link_pages) 2 ''https://example.com'' None init =
     Some (Normal,
       \<lparr>index = [(''https://example.com'', ''home''), (''https://example.com/about'', ''about'')],
        visited = {''https://example.com'', ''https://example.com/gone'',
                   ''https://example.com/about''},
        gets = [''https://example.com'', ''https://example.com/gone'',
                ''https://example.com/about'']\<rparr>)
   \<and> ''https://example.com/gone'' \<notin> visited init
   \<and> fetch_page (site dead_link_pages) ''https://example.com/gone'' = Inl RequestException
   \<and> ''https://example.com/gone'' \<notin> fst ` set [(''https://example.com'', ''home''),
         (''https://example.com/about'', ''about'')]
   \<and> crawl (site dead_link_pages) (Suc 0) ''https://example.com/gone'' None init =
        Some (Normal, init\<lparr>visited := insert ''https://example.com/gone'' (visited init),
                           gets := gets init @ [''https://example.com/gone'']\<rparr>)"
proof -
  have nv: "''https://example.com/gone'' \<notin> visited init" by (simp add: init_def)
  note t = index_iff_fetch_succeeded[of "site dead_link_pages" 2 "''https://example.com''" None
      Normal _ "''https://example.com/gone''" "''https://example.com/gone''" init RequestException
      0 None]
  from t dead_link_run dead_link_gone nv show ?thesis by simp
qed

subsection \<open>C3: no exception leaves \<^verbatim>\<open>crawl\<close>\<close>

text \<open>
  C3: whatever the collaborators raise, a call of \<^verbatim>\<open>crawl\<close> that returns returns
  normally; and when the scope prefix is not empty and finitely many URLs can be reached
  from the URL, the call does return, with any fuel above their number.
\<close>

theorem crawl_returns_normally:
  "(crawl e n url b s = Some (c, s') \<longrightarrow> c = Normal)
   \<and> (base_or b url \<noteq> [] \<and> finite ((follows e (base_or b url))\<^sup>* `` {url}) \<and>
        card ((follows e (base_or b url))\<^sup>* `` {url}) < m \<longrightarrow>
      (\<exists>s''. crawl e m url b s = Some (Normal, s'')))"
  using crawl_Normal crawl_total by blast

lemma chain_reach:
  "(follows (site chain_pages) ''https://example.com'')\<^sup>* `` {''https://example.com''} =
     {''https://example.com'', ''https://example.com/b'', ''https://example.com/c''}"
  using crawl_reach[OF chain_run] by simp

theorem crawl_returns_normally_witness:
  "base_or None ''https://example.com'' \<noteq> []
   \<and> finite ((follows (site chain_pages) (base_or None ''https://example.com''))\<^sup>* ``
        {''https://example.com''})
   \<and> card ((follows (site chain_pages) (base_or None ''https://example.com''))\<^sup>* ``
        {''https://example.com''}) < 4
   \<and> crawl (site chain_pages) 4 ''https://example.com'' None init \<noteq> None
   \<and> fst (the (crawl (site chain_pages) 4 ''https://example.com'' None init)) = Normal"
proof -
  have b: "base_or None ''https://example.com'' = ''https://example.com''"
    by (simp add: base_or_def)
  have f: "finite ((follows (site chain_pages) (base_or None ''https://example.com''))\<^sup>* ``
        {''https://example.com''})"
    unfolding b chain_reach by simp
  have c: "card ((follows (site chain_pages) (base_or None ''https://example.com''))\<^sup>* ``
        {''https://example.com''}) < 4"
    unfolding b chain_reach by simp
  from crawl_returns_normally[of "site chain_pages" 4 "''https://example.com''" None init
      Normal init 4] b f c
  obtain s'' where "crawl (site chain_pages) 4 ''https://example.com'' None init = Some (Normal, s'')"
    by auto
  with b f c show ?thesis by simp
qed

subsection \<open>C4: a visited URL is not crawled again\<close>

text \<open>
  C4: \<^verbatim>\<open>crawl\<close> on a URL already in the visited set returns the crawler unchanged, so it
  makes no request and leaves the visited set and the index as they are; a second
  \<^verbatim>\<open>crawl(seed)\<close> after a first one is such a call. Marking a URL succeeds if and only
  if it was not visited, and marking it again fails.
\<close>

theorem crawl_visited_idempotent:
  "(url \<in> visited s \<longrightarrow> crawl e (Suc n) url b s = Some (Normal, s))
   \<and> (crawl e k seed b0 s0 = Some (c, s') \<longrightarrow> crawl e (Suc m) seed b' s' = Some (Normal, s'))
   \<and> fst (try_mark url s) = (url \<notin> visited s)
   \<and> fst (try_mark url (snd (try_mark url s))) = False"
proof (intro conjI impI)
  show "crawl e (Suc n) url b s = Some (Normal, s)" if "url \<in> visited s"
    using that by (rule crawl_skip)
  show "crawl e (Suc m) seed b' s' = Some (Normal, s')" if "crawl e k seed b0 s0 = Some (c, s')"
    using crawl_visited[OF that] crawl_skip by blast
  show "fst (try_mark url s) = (url \<notin> visited s)" by (simp add: try_mark_def)
  show "fst (try_mark url (snd (try_mark url s))) = False" by (simp add: try_mark_def)
qed

theorem crawl_visited_idempotent_witness:
  "''https://example.com/b'' \<in> visited
       \<lparr>index = [(''https://example.com'', ''page A''), (''https://example.com/b'', ''page B''),
                 (''https://example.com/c'', ''page C'')],
        visited = {''https://example.com'', ''https://example.com/b'', ''https://example.com/c''},
        gets = [''https://example.com'', ''https://example.com/b'', ''https://example.com/c'']\<rparr>
   \<and> crawl (site chain_pages) 3 ''https://example.com'' None init =
     Some (Normal,
       \<lparr>index = [(''https://example.com'', ''page A''), (''https://example.com/b'', ''page B''),
                 (''https://example.com/c'', ''page C'')],
        visited = {''https://example.com'', ''https://example.com/b'', ''https://example.com/c''},
        gets = [''https://example.com'', ''https://example.com/b'', ''https://example.com/c'']\<rparr>)
   \<and> crawl (site chain_pages) (Suc 0) ''https://example.com/b'' None
       \<lparr>index = [(''https://example.com'', ''page A''), (''https://example.com/b'', ''page B''),
                 (''https://example.com/c'', ''page C'')],
        visited = {''https://example.com'', ''https://example.com/b'', ''https://example.com/c''},
        gets = [''https://example.com'', ''https://example.com/b'', ''https://example.com/c'']\<rparr> =
     Some (Normal,
       \<lparr>index = [(''https://example.com'', ''page A''), (''https://example.com/b'', ''page B''),
                 (''https://example.com/c'', ''page C'')],
        visited = {''https://example.com'', ''https://example.com/b'', ''https://example.com/c''},
        gets = [''https://example.com'', ''https://example.com/b'', ''https://example.com/c'']\<rparr>)
   \<and> crawl (site chain_pages) (Suc 0) ''https://example.com'' None
       \<lparr>index = [(''https://example.com'', ''page A''), (''https://example.com/b'', ''page B''),
                 (''https://example.com/c'', ''page C'')],
        visited = {''https://example.com'', ''https://example.com/b'', ''https://example.com/c''},
        gets = [''https://example.com'', ''https://example.com/b'', ''https://example.com/c'']\<rparr> =
     Some (Normal,
       \<lparr>index = [(''https://example.com'', ''page A''), (''https://example.com/b'', ''page B''),
                 (''https://example.com/c'', ''page C'')],
        visited = {''https://example.com'', ''https://example.com/b'', ''https://example.com/c''},
        gets = [''https://example.com'', ''https://example.com/b'', ''https://example.com/c'']\<rparr>)"
proof -
  let ?S = "\<lparr>index = [(''https://example.com'', ''page A''), (''https://example.com/b'', ''page B''),
                 (''https://example.com/c'', ''page C'')],
        visited = {''https://example.com'', ''https://example.com/b'', ''https://example.com/c''},
        gets = [''https://example.com'', ''https://example.com/b'', ''https://example.com/c'']\<rparr>"
  have v: "''https://example.com/b'' \<in> visited ?S" by simp
  note t = crawl_visited_idempotent[where url = "''https://example.com/b''" and s = ?S
      and e = "site chain_pages" and n = 0 and b = None and k = 3
      and seed = "''https://example.com''" and b0 = None and s0 = init and c = Normal and s' = ?S and m = 0 and b' = None]
  from t v chain_run show ?thesis by blast
qed

subsection \<open>C6: out-of-scope URLs are never added\<close>

text \<open>
  C6: a call of \<^verbatim>\<open>crawl\<close> adds no URL that does not start with the scope prefix, other
  than its own argument: such a URL is in the visited set afterwards only if it was
  there before, its index entry is unchanged, and it is requested only if it had been
  requested before. For \<^verbatim>\<open>crawl(seed)\<close> the prefix is the seed, so this covers every
  external link.
\<close>

theorem out_of_scope_never_added:
  "crawl e n url b s = Some (c, s') \<Longrightarrow> u \<noteq> url \<Longrightarrow> \<not> startswith u (base_or b url) \<Longrightarrow>
   (u \<in> visited s') = (u \<in> visited s) \<and> map_of (index s') u = map_of (index s) u \<and>
   (u \<in> set (gets s')) = (u \<in> set (gets s))"
proof -
  assume run: "crawl e n url b s = Some (c, s')" and u: "u \<noteq> url" "\<not> startswith u (base_or b url)"
  have v: "(u \<in> visited s') = (u \<in> visited s)"
    using crawl_scope[OF run] crawl_visited[OF run] u by auto
  moreover have "map_of (index s') u = map_of (index s) u"
    using crawl_index_map[OF run, of u] v by simp
  moreover have "(u \<in> set (gets s')) = (u \<in> set (gets s))"
  proof -
    obtain new where new: "gets s' = gets s @ new" "set new = visited s' - visited s"
      using crawl_gets[OF run] by blast
    have "u \<notin> set new" unfolding new(2) using v by simp
    then show ?thesis unfolding new(1) by simp
  qed
  ultimately show ?thesis by simp
qed

theorem out_of_scope_never_added_witness:
  "crawl (site scenario_pages) 2 ''https://example.com'' None init =
     Some (Normal,
       \<lparr>index = [(''https://example.com'', ''home''), (''https://example.com/about'', ''about''),
                 (''https://example.com/about#frag'', ''about'')],
        visited = {''https://example.com'', ''https://example.com/about'',
                   ''https://example.com/about#frag''},
        gets = [''https://example.com'', ''https://example.com/about'',
                ''https://example.com/about#frag'']\<rparr>)
   \<and> ''https://external.com'' \<noteq> ''https://example.com''
   \<and> \<not> startswith ''https://external.com'' (base_or None ''https://example.com'')
   \<and> ''https://external.com'' \<notin> {''https://example.com'', ''https://example.com/about'',
                   ''https://example.com/about#frag''}
   \<and> map_of [(''https://example.com'', ''home''), (''https://example.com/about'', ''about''),
                 (''https://example.com/about#frag'', ''about'')] ''https://external.com'' = None"
proof -
  have a: "''https://external.com'' \<noteq> ''https://example.com''" by simp
  have b: "\<not> startswith ''https://external.com'' (base_or None ''https://example.com'')"
    by (simp add: base_or_def)
  from out_of_scope_never_added[OF scenario_run a b] scenario_run a b
  show ?thesis by (simp add: init_def)
qed

subsection \<open>C7: fragment links are crawled as URLs of their own\<close>

lemma targets_append:
  assumes "\<forall>h. Some h \<in> set pre \<longrightarrow> (\<exists>r. urljoin e base h = Inr r)"
  shows "targets e base (pre @ links) = targets e base pre @ targets e base links"
  using assms
proof (induction pre)
  case Nil
  then show ?case by simp
next
  case (Cons link pre)
  then have ih: "targets e base (pre @ links) = targets e base pre @ targets e base links"
    by simp
  show ?case
  proof (cases link)
    case None
    with ih show ?thesis by simp
  next
    case (Some h)
    with Cons.prems obtain r where r: "urljoin e base h = Inr r" by auto
    show ?thesis
    proof (cases "h = []")
      case True
      with Some ih show ?thesis by simp
    next
      case False
      show ?thesis
      proof (cases "startswith r base")
        case True
        have "targets e base (link # pre @ links) = r # targets e base (pre @ links)"
          "targets e base (link # pre) = r # targets e base pre"
          using Some targets_internal[OF False r True] by simp_all
        with ih show ?thesis by simp
      next
        case out: False
        have "targets e base (link # pre @ links) = targets e base (pre @ links)"
          "targets e base (link # pre) = targets e base pre"
          using Some targets_external[OF False r out] by simp_all
        with ih show ?thesis by simp
      qed
    qed
  qed
qed

lemma targets_behind:
  assumes "\<forall>h. Some h \<in> set pre \<longrightarrow> (\<exists>r. urljoin e base h = Inr r)"
    and "h \<noteq> []" "urljoin e base h = Inr r" "startswith r base"
  shows "r \<in> set (targets e base (pre @ Some h # post))"
proof -
  have "targets e base (Some h # post) = r # targets e base post"
    using targets_internal[OF assms(2,3,4)] .
  then show ?thesis using targets_append[OF assms(1), of "Some h # post"] by simp
qed

lemma sample_page:
  "fetch_page sample_site url =
     Inr (''Welcome! About Us External Link Contact Section Link'',
       [Some ''/about'', Some ''https://www.external.com'', Some ''/contact'', Some ''#section''])"
  by (simp add: sample_site_def fetch_page_def)

lemma broken_fragment_run:
  "crawl (site broken_fragment_pages) 2 ''https://example.com'' None init =
     Some (Normal,
       \<lparr>index = [(''https://example.com'', ''home'')],
        visited = {''https://example.com''},
        gets = [''https://example.com'']\<rparr>)"
  by (simp add: run_defs broken_fragment_pages_def)

text \<open>
  C7 as stated fails. On the site \<^const>\<open>broken_fragment_pages\<close> the seed page has the
  references \<^verbatim>\<open>//[\<close> and \<^verbatim>\<open>#section\<close>. \<^verbatim>\<open>urljoin\<close> resolves \<^verbatim>\<open>#section\<close> to
  \<^verbatim>\<open>https://example.com#section\<close>, which starts with the seed, but it raises
  \<^verbatim>\<open>ValueError\<close> on \<^verbatim>\<open>//[\<close> first; the second \<^verbatim>\<open>except\<close> clause catches that outside the
  loop, and the fragment link is neither marked visited nor requested.
\<close>

theorem fragment_link_not_crawled_counterexample:
  "fetch_page (site broken_fragment_pages) ''https://example.com'' =
     Inr (''home'', [Some ''//['', Some ''#section''])
   \<and> urljoin (site broken_fragment_pages) ''https://example.com'' ''#section'' =
     Inr ''https://example.com#section''
   \<and> startswith ''https://example.com#section'' ''https://example.com''
   \<and> crawl (site broken_fragment_pages) 2 ''https://example.com'' None init =
     Some (Normal,
       \<lparr>index = [(''https://example.com'', ''home'')],
        visited = {''https://example.com''},
        gets = [''https://example.com'']\<rparr>)
   \<and> ''https://example.com#section''
        \<notin> visited (snd (the (crawl (site broken_fragment_pages) 2 ''https://example.com'' None init)))
   \<and> ''https://example.com#section''
        \<notin> set (gets (snd (the (crawl (site broken_fragment_pages) 2 ''https://example.com'' None init))))"
proof -
  have "fetch_page (site broken_fragment_pages) ''https://example.com'' =
     Inr (''home'', [Some ''//['', Some ''#section''])"
    by (simp add: site_def broken_fragment_pages_def fetch_page_def)
  moreover have "urljoin (site broken_fragment_pages) ''https://example.com'' ''#section'' =
     Inr ''https://example.com#section''"
    by (simp add: site_def urljoin_example_def)
  moreover have "startswith ''https://example.com#section'' ''https://example.com''" by simp
  ultimately show ?thesis by (simp add: broken_fragment_run)
qed

lemma sample_page_split:
  "fetch_page sample_site url =
     Inr (''Welcome! About Us External Link Contact Section Link'',
       [Some ''/about'', Some ''https://www.external.com'', Some ''/contact'']
       @ Some (CHR ''#'' # ''section'') # [])"
  by (simp add: sample_site_def fetch_page_def)

lemma sample_pre_no_raise:
  "\<forall>h. Some h \<in> set [Some ''/about'', Some ''https://www.external.com'', Some ''/contact'']
     \<longrightarrow> (\<exists>r. urljoin sample_site ''https://example.com'' h = Inr r)"
  by (simp add: sample_site_def urljoin_example_def)

lemma sample_fragment_join:
  "urljoin sample_site ''https://example.com'' (CHR ''#'' # ''section'') =
     Inr (''https://example.com'' @ CHR ''#'' # ''section'')"
  by (simp add: sample_site_def urljoin_example_def)

text \<open>
  C7, amended: a fragment-only reference \<^verbatim>\<open>#frag\<close> that \<^verbatim>\<open>urljoin\<close> resolves to the base
  followed by \<^verbatim>\<open>#frag\<close> (as \<^verbatim>\<open>urllib.parse.urljoin\<close> does for a non-empty fragment and a
  base without one) gives a URL that is in scope and differs from the base; when the
  reference stands on a page that was visited and fetched successfully, behind no
  reference on which \<^verbatim>\<open>urljoin\<close> raises, that URL is marked visited and requested, on a
  fresh crawler with a seed that is not the empty string. In the scenario with the links
  \<^verbatim>\<open>/about\<close>, \<^verbatim>\<open>https://external.com\<close> and \<^verbatim>\<open>/about#frag\<close> the visited set is the seed,
  \<^verbatim>\<open>https://example.com/about\<close> and \<^verbatim>\<open>https://example.com/about#frag\<close>, without
  \<^verbatim>\<open>https://external.com\<close>.
\<close>

theorem fragment_link_crawled_when_reached:
  "(seed \<noteq> [] \<and> crawl e n seed None init = Some (c, s') \<and> page \<in> visited s' \<and>
    fetch_page e page = Inr (t, pre @ Some (CHR ''#'' # frag) # post) \<and>
    (\<forall>h. Some h \<in> set pre \<longrightarrow> (\<exists>r. urljoin e seed h = Inr r)) \<and>
    urljoin e seed (CHR ''#'' # frag) = Inr (seed @ CHR ''#'' # frag) \<longrightarrow>
      startswith (seed @ CHR ''#'' # frag) seed \<and> seed @ CHR ''#'' # frag \<noteq> seed \<and>
      seed @ CHR ''#'' # frag \<in> visited s' \<and> seed @ CHR ''#'' # frag \<in> set (gets s'))
   \<and> crawl (site scenario_pages) 2 ''https://example.com'' None init =
     Some (Normal,
       \<lparr>index = [(''https://example.com'', ''home''), (''https://example.com/about'', ''about''),
                 (''https://example.com/about#frag'', ''about'')],
        visited = {''https://example.com'', ''https://example.com/about'',
                   ''https://example.com/about#frag''},
        gets = [''https://example.com'', ''https://example.com/about'',
                ''https://example.com/about#frag'']\<rparr>)
   \<and> ''https://external.com'' \<notin> {''https://example.com'', ''https://example.com/about'',
                   ''https://example.com/about#frag''}"
proof (intro conjI impI)
  assume h: "seed \<noteq> [] \<and> crawl e n seed None init = Some (c, s') \<and> page \<in> visited s' \<and>
    fetch_page e page = Inr (t, pre @ Some (CHR ''#'' # frag) # post) \<and>
    (\<forall>h. Some h \<in> set pre \<longrightarrow> (\<exists>r. urljoin e seed h = Inr r)) \<and>
    urljoin e seed (CHR ''#'' # frag) = Inr (seed @ CHR ''#'' # frag)"
  then have run: "crawl e n seed None init = Some (c, s')" and ne: "seed \<noteq> []"
    and pre: "\<forall>h. Some h \<in> set pre \<longrightarrow> (\<exists>r. urljoin e seed h = Inr r)"
    and j: "urljoin e seed (CHR ''#'' # frag) = Inr (seed @ CHR ''#'' # frag)"
    and pg: "fetch_page e page = Inr (t, pre @ Some (CHR ''#'' # frag) # post)"
    and pv: "page \<in> visited s'"
    by simp_all
  let ?r = "seed @ CHR ''#'' # frag"
  show sw: "startswith ?r seed" by (simp add: startswith_iff)
  show "?r \<noteq> seed" by simp
  have "?r \<in> set (targets e seed (pre @ Some (CHR ''#'' # frag) # post))"
    using targets_behind[OF pre _ j sw] by simp
  then have "(page, ?r) \<in> follows e seed" using pg unfolding follows_def by blast
  moreover have "(seed, page) \<in> (follows e seed)\<^sup>*"
    using crawl_reach[OF run ne] pv by auto
  ultimately have "(seed, ?r) \<in> (follows e seed)\<^sup>*" by (rule rtrancl_into_rtrancl[rotated])
  then show v: "?r \<in> visited s'" using crawl_reach[OF run ne] by auto
  obtain new where new: "gets s' = gets init @ new" "set new = visited s' - visited init"
    using crawl_gets[OF run] by blast
  have "?r \<in> set new" unfolding new(2) using v by (simp add: init_def)
  then show "?r \<in> set (gets s')" unfolding new(1) by simp
next
  show "crawl (site scenario_pages) 2 ''https://example.com'' None init =
     Some (Normal,
       \<lparr>index = [(''https://example.com'', ''home''), (''https://example.com/about'', ''about''),
                 (''https://example.com/about#frag'', ''about'')],
        visited = {''https://example.com'', ''https://example.com/about'',
                   ''https://example.com/about#frag''},
        gets = [''https://example.com'', ''https://example.com/about'',
                ''https://example.com/about#frag'']\<rparr>)"
    by (rule scenario_run)
  show "''https://external.com'' \<notin> {''https://example.com'', ''https://example.com/about'',
                   ''https://example.com/about#frag''}" by simp
qed

theorem fragment_link_crawled_when_reached_witness:
  "crawl sample_site 5 ''https://example.com'' None init \<noteq> None
   \<and> fetch_page sample_site ''https://example.com'' =
     Inr (''Welcome! About Us External Link Contact Section Link'',
       [Some ''/about'', Some ''https://www.external.com'', Some ''/contact'', Some ''#section''])
   \<and> urljoin sample_site ''https://example.com'' ''#section'' = Inr ''https://example.com#section''
   \<and> ''https://example.com#section''
        \<in> visited (snd (the (crawl sample_site 5 ''https://example.com'' None init)))
   \<and> ''https://example.com#section''
        \<in> set (gets (snd (the (crawl sample_site 5 ''https://example.com'' None init))))
   \<and> ''https://example.com#section'' \<noteq> ''https://example.com''"
proof -
  have ne: "''https://example.com'' \<noteq> []" by simp
  have pv: "''https://example.com'' \<in> visited
       \<lparr>index =
          [(''https://example.com'', ''Welcome! About Us External Link Contact Section Link''),
           (''https://example.com/about'', ''Welcome! About Us External Link Contact Section Link''),
           (''https://example.com/contact'', ''Welcome! About Us External Link Contact Section Link''),
           (''https://example.com#section'', ''Welcome! About Us External Link Contact Section Link'')],
        visited = {''https://example.com'', ''https://example.com/about'',
                   ''https://example.com/contact'', ''https://example.com#section''},
        gets = [''https://example.com'', ''https://example.com/about'',
                ''https://example.com/contact'', ''https://example.com#section'']\<rparr>"
    by simp
  note t = fragment_link_crawled_when_reached[THEN conjunct1, rule_format,
      OF conjI[OF ne conjI[OF sample_run conjI[OF pv conjI[OF sample_page_split
         conjI[OF sample_pre_no_raise sample_fragment_join]]]]]]
  have "''https://example.com#section''
        \<in> visited (snd (the (crawl sample_site 5 ''https://example.com'' None init)))
     \<and> ''https://example.com#section''
        \<in> set (gets (snd (the (crawl sample_site 5 ''https://example.com'' None init))))"
    using t by (simp add: sample_run)
  moreover have "fetch_page sample_site ''https://example.com'' =
     Inr (''Welcome! About Us External Link Contact Section Link'',
       [Some ''/about'', Some ''https://www.external.com'', Some ''/contact'', Some ''#section''])"
    using sample_page_split[of "''https://example.com''"] by simp
  moreover have "urljoin sample_site ''https://example.com'' ''#section'' =
      Inr ''https://example.com#section''"
    using sample_fragment_join by simp
  ultimately show ?thesis by (simp add: sample_run)
qed

subsection \<open>C8: the scope test is a string prefix test\<close>

lemma for_links_single:
  assumes "href \<noteq> []" and "urljoin e (base_or b page) href = Inr r"
  shows "for_links e n page b [Some href] s =
     (if startswith r (base_or b page) then crawl e n r (Some (base_or b page)) s
      else Some (Normal, s))"
proof (cases "startswith r (base_or b page)")
  case False
  with assms show ?thesis by simp
next
  case True
  show ?thesis
  proof (cases "crawl e n r (Some (base_or b page)) s")
    case None
    with assms True show ?thesis by simp
  next
    case (Some res)
    obtain c s1 where res: "res = (c, s1)" by (cases res)
    have "c = Normal" using crawl_Normal Some res by blast
    with assms True Some res show ?thesis by simp
  qed
qed

text \<open>
  C8: the test of line 33 holds exactly when the URL is the base followed by some
  string, so \<^verbatim>\<open>https://example.com.evil.com\<close> passes it for the base
  \<^verbatim>\<open>https://example.com\<close>; the loop crawls a resolved reference if this test holds and
  skips it otherwise; and a crawl of a seed page with that link visits it.
\<close>

theorem in_scope_is_string_prefix:
  "(startswith url base = (\<exists>rest. url = base @ rest))
   \<and> startswith ''https://example.com.evil.com'' ''https://example.com''
   \<and> (href \<noteq> [] \<and> urljoin e (base_or b page) href = Inr r \<longrightarrow>
        for_links e n page b [Some href] s =
          (if startswith r (base_or b page) then crawl e n r (Some (base_or b page)) s
           else Some (Normal, s)))
   \<and> crawl (site evil_pages) 2 ''https://example.com'' None init =
     Some (Normal,
       \<lparr>index = [(''https://example.com'', ''home''), (''https://example.com.evil.com'', ''evil'')],
        visited = {''https://example.com'', ''https://example.com.evil.com''},
        gets = [''https://example.com'', ''https://example.com.evil.com'']\<rparr>)"
proof (intro conjI impI)
  show "startswith url base = (\<exists>rest. url = base @ rest)" by (rule startswith_iff)
  show "startswith ''https://example.com.evil.com'' ''https://example.com''" by simp
  show "for_links e n page b [Some href] s =
          (if startswith r (base_or b page) then crawl e n r (Some (base_or b page)) s
           else Some (Normal, s))"
    if "href \<noteq> [] \<and> urljoin e (base_or b page) href = Inr r"
    using that for_links_single by blast
  show "crawl (site evil_pages) 2 ''https://example.com'' None init =
     Some (Normal,
       \<lparr>index = [(''https://example.com'', ''home''), (''https://example.com.evil.com'', ''evil'')],
        visited = {''https://example.com'', ''https://example.com.evil.com''},
        gets = [''https://example.com'', ''https://example.com.evil.com'']\<rparr>)"
    by (rule evil_run)
qed

theorem in_scope_is_string_prefix_witness:
  "''https://example.com.evil.com'' \<noteq> []
   \<and> urljoin (site evil_pages) (base_or None ''https://example.com'')
        ''https://example.com.evil.com'' = Inr ''https://example.com.evil.com''
   \<and> for_links (site evil_pages) 1 ''https://example.com'' None
        [Some ''https://example.com.evil.com''] init =
       crawl (site evil_pages) 1 ''https://example.com.evil.com'' (Some ''https://example.com'') init"
proof -
  have a: "''https://example.com.evil.com'' \<noteq> []" by simp
  have j: "urljoin (site evil_pages) (base_or None ''https://example.com'')
        ''https://example.com.evil.com'' = Inr ''https://example.com.evil.com''"
    by (simp add: site_def urljoin_example_def base_or_def)
  have b: "base_or None ''https://example.com'' = ''https://example.com''"
    by (simp add: base_or_def)
  note t = in_scope_is_string_prefix[THEN conjunct2, THEN conjunct2, THEN conjunct1, rule_format,
      OF conjI[OF a j], of 1 init]
  have "for_links (site evil_pages) 1 ''https://example.com'' None
        [Some ''https://example.com.evil.com''] init =
       crawl (site evil_pages) 1 ''https://example.com.evil.com'' (Some ''https://example.com'') init"
    using t unfolding b by simp
  with a j show ?thesis by blast
qed

subsection \<open>C9: the index stays within the visited set\<close>

text \<open>
  C9: when every indexed URL is visited before a call of \<^verbatim>\<open>crawl\<close>, as on a fresh
  crawler, this holds in every state the call passes through, whether or not the call
  returns within the fuel, and in the state it returns, which is the last of these
  states.
\<close>

theorem index_within_visited:
  "index_visited s \<Longrightarrow>
   (\<forall>t \<in> set (crawl_states e n url b s). index_visited t) \<and>
   (crawl e n url b s = Some (c, s') \<longrightarrow>
      index_visited s' \<and> last (s # crawl_states e n url b s) = s')"
  using states_index_visited(1) crawl_index_visited states_last(1) by blast

theorem index_within_visited_witness:
  "index_visited init
   \<and> crawl (site chain_pages) 3 ''https://example.com'' None init =
     Some (Normal,
       \<lparr>index = [(''https://example.com'', ''page A''), (''https://example.com/b'', ''page B''),
                 (''https://example.com/c'', ''page C'')],
        visited = {''https://example.com'', ''https://example.com/b'', ''https://example.com/c''},
        gets = [''https://example.com'', ''https://example.com/b'', ''https://example.com/c'']\<rparr>)
   \<and> index_visited
       \<lparr>index = [(''https://example.com'', ''page A''), (''https://example.com/b'', ''page B''),
                 (''https://example.com/c'', ''page C'')],
        visited = {''https://example.com'', ''https://example.com/b'', ''https://example.com/c''},
        gets = [''https://example.com'', ''https://example.com/b'', ''https://example.com/c'']\<rparr>
   \<and> index_visited (last (init # crawl_states (site chain_pages) 3 ''https://example.com'' None init))"
proof -
  have i: "index_visited init" by (simp add: index_visited_def init_def)
  note t = index_within_visited[OF i, of "site chain_pages" 3 "''https://example.com''" None,
      THEN conjunct2, rule_format, OF chain_run]
  from t i chain_run show ?thesis by simp
qed

subsection \<open>C10: the argument of \<^verbatim>\<open>crawl\<close> is not filtered\<close>

text \<open>
  C10: \<^verbatim>\<open>crawl(url, base)\<close> on a URL not yet visited marks it visited, requests it and,
  when fetch and parse succeed, indexes its text, whether or not the URL starts with
  \<^verbatim>\<open>base\<close>; every other URL the call adds starts with the scope prefix.
\<close>

theorem crawl_marks_its_argument:
  "url \<notin> visited s \<Longrightarrow> crawl e n url (Some base) s = Some (c, s') \<Longrightarrow>
   url \<in> visited s' \<and> url \<in> set (gets s') \<and>
   (fetch_page e url = Inr (t, links) \<longrightarrow> map_of (index s') url = Some t) \<and>
   visited s' \<subseteq> insert url (visited s) \<union> {u. startswith u (base_or (Some base) url)}"
proof -
  assume nv: "url \<notin> visited s" and run: "crawl e n url (Some base) s = Some (c, s')"
  have v: "url \<in> visited s'" using crawl_visited[OF run] by simp
  obtain new where new: "gets s' = gets s @ new" "set new = visited s' - visited s"
    using crawl_gets[OF run] by blast
  have "url \<in> set new" unfolding new(2) using v nv by simp
  then have g: "url \<in> set (gets s')" unfolding new(1) by simp
  have m: "map_of (index s') url = Some t" if "fetch_page e url = Inr (t, links)"
    using crawl_index_map[OF run, of url] v nv that by simp
  from v g m crawl_scope[OF run] show ?thesis by blast
qed

theorem crawl_marks_its_argument_witness:
  "''https://other.org'' \<notin> visited init
   \<and> \<not> startswith ''https://other.org'' ''https://example.com''
   \<and> crawl sample_site 5 ''https://other.org'' (Some ''https://example.com'') init \<noteq> None
   \<and> ''https://other.org''
        \<in> visited (snd (the (crawl sample_site 5 ''https://other.org'' (Some ''https://example.com'') init)))
   \<and> ''https://other.org''
        \<in> set (gets (snd (the (crawl sample_site 5 ''https://other.org'' (Some ''https://example.com'') init))))
   \<and> map_of (index (snd (the (crawl sample_site 5 ''https://other.org'' (Some ''https://example.com'') init))))
        ''https://other.org'' = Some ''Welcome! About Us External Link Contact Section Link''"
proof -
  have nv: "''https://other.org'' \<notin> visited init" by (simp add: init_def)
  note t = crawl_marks_its_argument[OF nv sample_other_run,
      of "''Welcome! About Us External Link Contact Section Link''"
         "[Some ''/about'', Some ''https://www.external.com'', Some ''/contact'', Some ''#section'']"]
  have ns: "\<not> startswith ''https://other.org'' ''https://example.com''" by simp
  have r: "snd (the (crawl sample_site 5 ''https://other.org'' (Some ''https://example.com'') init)) =
      \<lparr>index =
          [(''https://other.org'', ''Welcome! About Us External Link Contact Section Link''),
           (''https://example.com/about'', ''Welcome! About Us External Link Contact Section Link''),
           (''https://example.com/contact'', ''Welcome! About Us External Link Contact Section Link''),
           (''https://example.com#section'', ''Welcome! About Us External Link Contact Section Link'')],
        visited = {''https://other.org'', ''https://example.com/about'',
                   ''https://example.com/contact'', ''https://example.com#section''},
        gets = [''https://other.org'', ''https://example.com/about'',
                ''https://example.com/contact'', ''https://example.com#section'']\<rparr>"
    by (simp add: sample_other_run)
  have n: "crawl sample_site 5 ''https://other.org'' (Some ''https://example.com'') init \<noteq> None"
    by (simp add: sample_other_run)
  from t sample_page[of "''https://other.org''"] nv ns n show ?thesis unfolding r by simp
qed

end
